theory Spec2Isabelle
  imports Complex_Main "HOL-Library.Word" "HOL-Library.Sublist"
begin

unbundle bit_operations_syntax

text \<open>
  A shallow embedding of the two algorithmic parts of the repository: the Chinese
  remainder solver \<^verbatim>\<open>Numbertheory.CRT\<close> of \<^verbatim>\<open>main/Math.py\<close> and the CREATE2
  address searches \<^verbatim>\<open>BlockchainUtils.GetSpecialAddressByCreate2\<close> and
  \<^verbatim>\<open>GetSpecialAddressByCreate2_two\<close> of \<^verbatim>\<open>main/Blockchain.py\<close>. Exceptions are
  values of a sum type, the Keccak-256 hash and the clock are parameters, and a search
  that never returns has the value \<open>None\<close>.
\<close>

section \<open>Exceptions\<close>

text \<open>
  The exceptions the modelled code can raise, as values. Python reports a failed
  \<^verbatim>\<open>gmpy2.invert\<close> and a failed \<^verbatim>\<open>//\<close> or \<^verbatim>\<open>%\<close> through the same
  class \<^verbatim>\<open>ZeroDivisionError\<close>; the model keeps the two apart by the place that raises:
  \<open>NoInverseExists\<close> is the \<^verbatim>\<open>ZeroDivisionError\<close> of \<^verbatim>\<open>gmpy2.invert\<close>
  when the argument has no inverse, \<open>DivisionByZero\<close> is every other one.
  \<open>TimeOut\<close> is the \<^verbatim>\<open>Exception("time out,maybe a wrong position")\<close> of the
  address search, \<open>HexError\<close> the failure of \<^verbatim>\<open>Web3.keccak(hexstr=...)\<close> to
  decode its argument.
\<close>

datatype error =
    TypeError | ValueError | IndexError | DivisionByZero | NoInverseExists
  | TimeOut | HexError

section \<open>main/Math.py: the Chinese remainder solver\<close>

text \<open>
  \<^verbatim>\<open>gmpy2.invert(x, m)\<close> is a library function: it returns the \<open>y\<close> with
  \<open>0 \<le> y < |m|\<close> and \<open>x * y \<equiv> 1 (mod m)\<close>, and raises \<^verbatim>\<open>ZeroDivisionError\<close>
  when \<open>m = 0\<close> or when no such \<open>y\<close> exists. (Modulo \<open>1\<close> every number is
  invertible and the inverse is \<open>0\<close>.)
\<close>

definition invert :: "int \<Rightarrow> int \<Rightarrow> error + int" where
  "invert x m =
     (if m = 0 then Inl DivisionByZero
      else case find (\<lambda>y. (x * y) mod m = 1 mod m) [0..\<bar>m\<bar> - 1] of
             None \<Rightarrow> Inl NoInverseExists
           | Some y \<Rightarrow> Inr y)"

text \<open>\<^verbatim>\<open>functools.reduce(f, xs)\<close> without an initial value: \<^verbatim>\<open>TypeError\<close> on the
  empty sequence, a left fold from the first element otherwise.\<close>

fun reduce :: "('a \<Rightarrow> 'a \<Rightarrow> 'a) \<Rightarrow> 'a list \<Rightarrow> error + 'a" where
  "reduce f [] = Inl TypeError"
| "reduce f (x # xs) = Inr (foldl f x xs)"

text \<open>\<^verbatim>\<open>xs.index(x)\<close>: the first position of \<open>x\<close>, \<^verbatim>\<open>ValueError\<close> when absent.\<close>

fun list_index :: "'a list \<Rightarrow> 'a \<Rightarrow> error + nat" where
  "list_index [] x = Inl ValueError"
| "list_index (y # ys) x =
     (if y = x then Inr 0
      else case list_index ys x of Inl e \<Rightarrow> Inl e | Inr k \<Rightarrow> Inr (Suc k))"

text \<open>
  The body of \<^verbatim>\<open>for mi in moudle\<close>, over the moduli still to visit. Line by line:
  \<^verbatim>\<open>Mi = M // mi\<close> raises on \<open>mi = 0\<close>; \<^verbatim>\<open>gmpy2.invert(Mi, mi)\<close> may raise;
  \<^verbatim>\<open>a[moudle.index(mi)]\<close> raises \<^verbatim>\<open>IndexError\<close> past the end of \<open>a\<close> (the index
  is never negative); \<^verbatim>\<open>... % M\<close> raises on \<open>M = 0\<close>. Python's \<^verbatim>\<open>//\<close> and
  \<^verbatim>\<open>%\<close> on integers are floor division and its remainder, as \<open>div\<close> and \<open>mod\<close>
  on \<open>int\<close> are.
\<close>

fun CRT_loop :: "int list \<Rightarrow> int list \<Rightarrow> int \<Rightarrow> int \<Rightarrow> int list \<Rightarrow> error + int" where
  "CRT_loop moudle a M result [] = Inr result"
| "CRT_loop moudle a M result (mi # rest) =
     (if mi = 0 then Inl DivisionByZero
      else let Mi = M div mi in
        case invert Mi mi of
          Inl e \<Rightarrow> Inl e
        | Inr inv_Mi \<Rightarrow>
            (case list_index moudle mi of
               Inl e \<Rightarrow> Inl e
             | Inr k \<Rightarrow>
                 if \<not> k < length a then Inl IndexError
                 else if M = 0 then Inl DivisionByZero
                 else CRT_loop moudle a M ((result + a ! k * Mi * inv_Mi) mod M) rest))"

definition CRT :: "int list \<Rightarrow> int list \<Rightarrow> error + int" where
  "CRT moudle a =
     (case reduce (\<lambda>x y. x * y) moudle of
        Inl e \<Rightarrow> Inl e
      | Inr M \<Rightarrow>
          (case CRT_loop moudle a M 0 moudle of
             Inl e \<Rightarrow> Inl e
           | Inr result \<Rightarrow> if M = 0 then Inl DivisionByZero else Inr (result mod M)))"


section \<open>Python strings\<close>

text \<open>
  A slice bound \<open>k\<close> on a sequence of length \<open>n\<close>: a negative bound counts from the
  end, and every bound is clamped to \<open>0..n\<close>.
\<close>

definition slice_bound :: "nat \<Rightarrow> int \<Rightarrow> nat" where
  "slice_bound n k = (if k < 0 then nat (max 0 (k + int n)) else min (nat k) n)"

text \<open>\<^verbatim>\<open>s[a:b]\<close>; empty when the stop is not after the start.\<close>

definition slice_py :: "'a list \<Rightarrow> int \<Rightarrow> int \<Rightarrow> 'a list" where
  "slice_py s a b =
     (let start = slice_bound (length s) a; stop = slice_bound (length s) b
      in take (stop - start) (drop start s))"

text \<open>\<^verbatim>\<open>s[a:]\<close>\<close>

definition slice_from :: "'a list \<Rightarrow> int \<Rightarrow> 'a list" where
  "slice_from s a = drop (slice_bound (length s) a) s"

text \<open>\<^verbatim>\<open>x in s\<close> on strings: \<open>x\<close> occurs in \<open>s\<close> as a contiguous substring.\<close>

fun str_in :: "string \<Rightarrow> string \<Rightarrow> bool" where
  "str_in x [] = (x = [])"
| "str_in x (c # s) = (prefix x (c # s) \<or> str_in x s)"

text \<open>\<^verbatim>\<open>s.rjust(w, c)\<close>: pads on the left up to width \<open>w\<close>, never truncates.\<close>

definition rjust :: "nat \<Rightarrow> char \<Rightarrow> string \<Rightarrow> string" where
  "rjust w c s = replicate (w - length s) c @ s"

definition hexdigit :: "nat \<Rightarrow> char" where
  "hexdigit d = ''0123456789abcdef'' ! d"

text \<open>\<^verbatim>\<open>hex(i)[2:]\<close> for \<open>i \<ge> 0\<close>: the lowercase hexadecimal digits, no leading zero.\<close>

fun hex :: "nat \<Rightarrow> string" where
  "hex n = (if n < 16 then [hexdigit n] else hex (n div 16) @ [hexdigit (n mod 16)])"

declare hex.simps [simp del]

text \<open>\<^verbatim>\<open>'%02x' % b\<close> for a byte \<open>b\<close>.\<close>

definition hex02 :: "8 word \<Rightarrow> string" where
  "hex02 b = [hexdigit (unat b div 16), hexdigit (unat b mod 16)]"

section \<open>The library call \<^verbatim>\<open>Web3.keccak(hexstr=s)\<close>\<close>

text \<open>
  \<^verbatim>\<open>Web3.keccak(hexstr=s)\<close> turns \<open>s\<close> into bytes with \<^verbatim>\<open>to_bytes(hexstr=s)\<close> and
  hashes them. \<^verbatim>\<open>to_bytes\<close> puts a \<open>0\<close> digit in front of a string of odd length, drops
  a leading \<^verbatim>\<open>0x\<close> or \<^verbatim>\<open>0X\<close>, and decodes with \<^verbatim>\<open>binascii.unhexlify\<close>, which reads
  digits of either case and raises on anything else. The hash itself, Keccak-256, is a
  parameter of the model: a function from bytes to the digest.
\<close>

type_synonym hasher = "8 word list \<Rightarrow> 8 word list"

definition hexval :: "char \<Rightarrow> nat option" where
  "hexval c = map_of
     [(CHR ''0'', 0), (CHR ''1'', 1), (CHR ''2'', 2), (CHR ''3'', 3), (CHR ''4'', 4),
      (CHR ''5'', 5), (CHR ''6'', 6), (CHR ''7'', 7), (CHR ''8'', 8), (CHR ''9'', 9),
      (CHR ''a'', 10), (CHR ''b'', 11), (CHR ''c'', 12), (CHR ''d'', 13), (CHR ''e'', 14),
      (CHR ''f'', 15), (CHR ''A'', 10), (CHR ''B'', 11), (CHR ''C'', 12), (CHR ''D'', 13),
      (CHR ''E'', 14), (CHR ''F'', 15)] c"

fun unhexlify :: "string \<Rightarrow> error + 8 word list" where
  "unhexlify [] = Inr []"
| "unhexlify [c] = Inl HexError"
| "unhexlify (c # d # s) =
     (case (hexval c, hexval d) of
        (Some h, Some l) \<Rightarrow>
          (case unhexlify s of
             Inl e \<Rightarrow> Inl e
           | Inr bs \<Rightarrow> Inr (of_nat (16 * h + l) # bs))
      | _ \<Rightarrow> Inl HexError)"

definition remove_0x_prefix :: "string \<Rightarrow> string" where
  "remove_0x_prefix s = (if take 2 s = ''0x'' \<or> take 2 s = ''0X'' then drop 2 s else s)"

definition to_bytes :: "string \<Rightarrow> error + 8 word list" where
  "to_bytes hexstr =
     (let hexstr' = (if odd (length hexstr) then ''0x0'' @ remove_0x_prefix hexstr else hexstr)
      in unhexlify (remove_0x_prefix hexstr'))"

definition Web3_keccak :: "hasher \<Rightarrow> string \<Rightarrow> error + 8 word list" where
  "Web3_keccak keccak256 hexstr =
     (case to_bytes hexstr of Inl e \<Rightarrow> Inl e | Inr input_bytes \<Rightarrow> Inr (keccak256 input_bytes))"

section \<open>main/Blockchain.py: the CREATE2 address search\<close>

text \<open>
  Lines 1534 to 1537 (and 1594 to 1597): the salt and the address for the counter \<open>i\<close>.
\<close>

definition create2 :: "hasher \<Rightarrow> string \<Rightarrow> string \<Rightarrow> nat \<Rightarrow> error + string \<times> string" where
  "create2 keccak256 DeployAddress BytecodeHash i =
     (let salt = rjust 64 CHR ''0'' (hex i);
          s = ''0xff'' @ DeployAddress @ salt @ BytecodeHash
      in case Web3_keccak keccak256 s of
           Inl e \<Rightarrow> Inl e
         | Inr hashed \<Rightarrow> Inr (salt, slice_from (concat (map hex02 hashed)) 24))"

text \<open>
  \<^verbatim>\<open>time.time()\<close> is read once before the loop and once in every iteration. The readings
  are an input of the model, taken as real numbers: \<open>time 0\<close> is \<^verbatim>\<open>start_time\<close>, and
  \<open>time (Suc i)\<close> is \<^verbatim>\<open>current_time\<close> in the iteration with counter \<open>i\<close>.
\<close>

type_synonym clock = "nat \<Rightarrow> real"

text \<open>
  The \<^verbatim>\<open>while (1)\<close> loop of \<^verbatim>\<open>GetSpecialAddressByCreate2\<close> from the counter \<open>i\<close> on.
  It may run forever (\<open>None\<close>); otherwise it leaves with an exception (\<open>Inl\<close>) or with
  the returned pair (\<open>Inr\<close>). Logging is not modelled.
\<close>

partial_function (option) GetSpecialAddressByCreate2_loop ::
  "hasher \<Rightarrow> clock \<Rightarrow> string \<Rightarrow> string \<Rightarrow> string \<Rightarrow> int \<Rightarrow> nat \<Rightarrow> (error + string \<times> string) option"
where
  "GetSpecialAddressByCreate2_loop keccak256 time DeployAddress BytecodeHash content position i =
     (let current_time = time (Suc i);
          elapsed_time = current_time - time 0
      in if elapsed_time \<ge> 10 then Some (Inl TimeOut)
         else case create2 keccak256 DeployAddress BytecodeHash i of
           Inl e \<Rightarrow> Some (Inl e)
         | Inr (salt, address) \<Rightarrow>
             if position = 0 \<and>
                str_in content (slice_py address position (position + int (length content)))
             then Some (Inr (''0x'' @ salt, ''0x'' @ address))
             else if position > 0 \<and>
                str_in content (slice_py address position (position + int (length content)))
             then Some (Inr (''0x'' @ salt, ''0x'' @ address))
             else if position < 0 \<and> position \<noteq> - 4 \<and>
                str_in content (slice_py address position (position + int (length content)))
             then Some (Inr (''0x'' @ salt, ''0x'' @ address))
             else if position = - 4 \<and> str_in content (slice_from address position)
             then Some (Inr (''0x'' @ salt, ''0x'' @ address))
             else GetSpecialAddressByCreate2_loop keccak256 time DeployAddress BytecodeHash
                    content position (Suc i))"

declare GetSpecialAddressByCreate2_loop.simps [code]

text \<open>What a call returns: the pair, or \<^verbatim>\<open>None\<close> from the \<^verbatim>\<open>except\<close> block.\<close>

datatype retval = RetNone | RetPair string string

fun except_None :: "(error + string \<times> string) option \<Rightarrow> retval option" where
  "except_None None = None"
| "except_None (Some (Inl e)) = Some RetNone"
| "except_None (Some (Inr (salt, address))) = Some (RetPair salt address)"

definition GetSpecialAddressByCreate2 ::
  "hasher \<Rightarrow> clock \<Rightarrow> string \<Rightarrow> string \<Rightarrow> string \<Rightarrow> int \<Rightarrow> retval option" where
  "GetSpecialAddressByCreate2 keccak256 time DeployAddress BytecodeHash content position =
     except_None
       (GetSpecialAddressByCreate2_loop keccak256 time DeployAddress BytecodeHash content position 0)"

partial_function (option) GetSpecialAddressByCreate2_two_loop ::
  "hasher \<Rightarrow> clock \<Rightarrow> string \<Rightarrow> string \<Rightarrow> string \<Rightarrow> string \<Rightarrow> int \<Rightarrow> int \<Rightarrow> nat
     \<Rightarrow> (error + string \<times> string) option"
where
  "GetSpecialAddressByCreate2_two_loop keccak256 time DeployAddress BytecodeHash
       content1 content2 position1 position2 i =
     (let current_time = time (Suc i);
          elapsed_time = current_time - time 0
      in if elapsed_time \<ge> 10 then Some (Inl TimeOut)
         else case create2 keccak256 DeployAddress BytecodeHash i of
           Inl e \<Rightarrow> Some (Inl e)
         | Inr (salt, address) \<Rightarrow>
             if str_in content1 (slice_py address position1 (position1 + int (length content1))) \<and>
                str_in content2 (slice_py address position2 (position2 + int (length content2)))
             then Some (Inr (''0x'' @ salt, ''0x'' @ address))
             else GetSpecialAddressByCreate2_two_loop keccak256 time DeployAddress BytecodeHash
                    content1 content2 position1 position2 (Suc i))"

declare GetSpecialAddressByCreate2_two_loop.simps [code]

definition GetSpecialAddressByCreate2_two ::
  "hasher \<Rightarrow> clock \<Rightarrow> string \<Rightarrow> string \<Rightarrow> string \<Rightarrow> string \<Rightarrow> int \<Rightarrow> int \<Rightarrow> retval option" where
  "GetSpecialAddressByCreate2_two keccak256 time DeployAddress BytecodeHash
       content1 content2 position1 position2 =
     except_None
       (GetSpecialAddressByCreate2_two_loop keccak256 time DeployAddress BytecodeHash
          content1 content2 position1 position2 0)"

section \<open>Notions used in the statements\<close>

text \<open>Keccak-256 returns 32 bytes whatever its input.\<close>

definition digest32 :: "hasher \<Rightarrow> bool" where
  "digest32 keccak256 \<longleftrightarrow> (\<forall>bs. length (keccak256 bs) = 32)"

text \<open>A string of hexadecimal digits.\<close>

definition hexstr :: "string \<Rightarrow> bool" where
  "hexstr s \<longleftrightarrow> list_all (\<lambda>c. hexval c \<noteq> None) s"

text \<open>The number a string of hexadecimal digits denotes (\<^verbatim>\<open>int(s, 16)\<close>).\<close>

definition hex_value :: "string \<Rightarrow> nat" where
  "hex_value s = foldl (\<lambda>n c. 16 * n + (case hexval c of None \<Rightarrow> 0 | Some d \<Rightarrow> d)) 0 s"

text \<open>The big-endian encoding of \<open>n\<close> in \<open>k\<close> bytes.\<close>

fun be_bytes :: "nat \<Rightarrow> nat \<Rightarrow> 8 word list" where
  "be_bytes 0 n = []"
| "be_bytes (Suc k) n = be_bytes k (n div 256) @ [of_nat (n mod 256)]"

text \<open>
  The position semantics of the specification, on an address string. The content
  occupies the characters from offset \<open>off\<close> on (the empty content occupies any place):
\<close>

definition occupies :: "string \<Rightarrow> int \<Rightarrow> string \<Rightarrow> bool" where
  "occupies content off address \<longleftrightarrow>
     content = [] \<or> (0 \<le> off \<and> take (length content) (drop (nat off) address) = content)"

text \<open>
  A constraint \<open>(content, position)\<close>: a position \<open>\<ge> 0\<close> is a forward offset, a
  negative one an offset from the end of the string, and the sentinel \<open>-4\<close> means anywhere
  in the last four characters.
\<close>

definition satisfies :: "string \<Rightarrow> int \<Rightarrow> string \<Rightarrow> bool" where
  "satisfies content position address =
     (if position = - 4 then sublist content (drop (length address - 4) address)
      else if position < 0 then occupies content (int (length address) + position) address
      else occupies content position address)"

text \<open>
  Stand-ins for the hash and the clock, to run the model on concrete inputs: a hash whose
  digest repeats one byte, a hash whose digest repeats the last byte of the salt (byte 52
  of the 85-byte preimage), and a clock that advances by \<open>d\<close> seconds per reading.
\<close>

definition const_hash :: "8 word \<Rightarrow> hasher" where
  "const_hash b bs = replicate 32 b"

definition salt_hash :: hasher where
  "salt_hash bs = replicate 32 (bs ! 52)"

definition ticking :: "real \<Rightarrow> clock" where
  "ticking d k = d * real k"

text \<open>
  One iteration of the searches. \<open>hit\<close> is the disjunction of the four branch conditions
  of \<^verbatim>\<open>GetSpecialAddressByCreate2\<close>, \<open>hit_two\<close> the condition of
  \<^verbatim>\<open>GetSpecialAddressByCreate2_two\<close>. An iteration \<open>passes\<close> when the loop goes on to
  the next counter; otherwise the loop \<open>leaves\<close> with an exception or with the pair.
\<close>

definition hit :: "string \<Rightarrow> int \<Rightarrow> string \<Rightarrow> bool" where
  "hit content position address \<longleftrightarrow>
     position = 0 \<and>
       str_in content (slice_py address position (position + int (length content))) \<or>
     position > 0 \<and>
       str_in content (slice_py address position (position + int (length content))) \<or>
     position < 0 \<and> position \<noteq> - 4 \<and>
       str_in content (slice_py address position (position + int (length content))) \<or>
     position = - 4 \<and> str_in content (slice_from address position)"

definition hit_two :: "string \<Rightarrow> string \<Rightarrow> int \<Rightarrow> int \<Rightarrow> string \<Rightarrow> bool" where
  "hit_two content1 content2 position1 position2 address \<longleftrightarrow>
     str_in content1 (slice_py address position1 (position1 + int (length content1))) \<and>
     str_in content2 (slice_py address position2 (position2 + int (length content2)))"

definition passes :: "clock \<Rightarrow> (nat \<Rightarrow> error + string \<times> string) \<Rightarrow> (string \<Rightarrow> bool) \<Rightarrow> nat \<Rightarrow> bool" where
  "passes time step test j \<longleftrightarrow>
     time (Suc j) - time 0 < 10 \<and>
     (case step j of Inl e \<Rightarrow> False | Inr (salt, address) \<Rightarrow> \<not> test address)"

definition leaves :: "clock \<Rightarrow> (nat \<Rightarrow> error + string \<times> string) \<Rightarrow> nat \<Rightarrow> error + string \<times> string" where
  "leaves time step n =
     (if time (Suc n) - time 0 \<ge> 10 then Inl TimeOut
      else case step n of
             Inl e \<Rightarrow> Inl e
           | Inr (salt, address) \<Rightarrow> Inr (''0x'' @ salt, ''0x'' @ address))"

section \<open>Properties of the Chinese remainder solver\<close>

lemma invert_Inr:
  assumes "invert x m = Inr y"
  shows "m \<noteq> 0 \<and> 0 \<le> y \<and> y < \<bar>m\<bar> \<and> (x * y) mod m = 1 mod m"
proof -
  from assms have m: "m \<noteq> 0"
    by (auto simp: invert_def split: if_splits)
  with assms have "find (\<lambda>y. (x * y) mod m = 1 mod m) [0..\<bar>m\<bar> - 1] = Some y"
    by (auto simp: invert_def split: option.splits)
  then have "y \<in> set [0..\<bar>m\<bar> - 1]" and "(x * y) mod m = 1 mod m"
    by (auto simp: find_Some_iff)
  with m show ?thesis by auto
qed

lemma invert_coprime:
  assumes "m \<noteq> 0" and "coprime x m"
  shows "\<exists>y. invert x m = Inr y"
proof -
  obtain u v where "u * x + v * m = gcd x m"
    using bezout_int by blast
  with assms have uv: "u * x + v * m = 1" by simp
  have "(x * u) mod m = (u * x + v * m) mod m"
    by (simp add: mult.commute)
  with uv have xu: "(x * u) mod m = 1 mod m" by simp
  define y where "y = u mod \<bar>m\<bar>"
  have "\<bar>m\<bar> dvd u - y"
    unfolding y_def by (simp add: mod_eq_dvd_iff [symmetric])
  then have "m dvd x * u - x * y"
    by (metis abs_dvd_iff dvd_mult right_diff_distrib)
  then have "(x * u) mod m = (x * y) mod m"
    by (simp add: mod_eq_dvd_iff)
  with xu have P: "(x * y) mod m = 1 mod m" by simp
  have "0 \<le> y" "y < \<bar>m\<bar>"
    using assms(1) by (simp_all add: y_def)
  then have "y \<in> set [0..\<bar>m\<bar> - 1]" by simp
  with P have "find (\<lambda>y. (x * y) mod m = 1 mod m) [0..\<bar>m\<bar> - 1] \<noteq> None"
    by (auto simp: find_None_iff)
  with assms(1) show ?thesis
    by (auto simp: invert_def split: option.splits)
qed

lemma invert_not_coprime:
  assumes "m \<noteq> 0" and "\<not> coprime x m"
  shows "invert x m = Inl NoInverseExists"
proof (cases "invert x m")
  case (Inl e)
  with assms(1) show ?thesis
    by (auto simp: invert_def split: option.splits)
next
  case (Inr y)
  then have "(x * y) mod m = 1 mod m"
    by (simp add: invert_Inr)
  then have "m dvd x * y - 1"
    by (simp add: mod_eq_dvd_iff)
  then obtain k where "x * y - 1 = m * k" ..
  then have "x * y + m * (- k) = 1" by simp
  have "coprime x m"
  proof (rule coprimeI)
    fix c assume "c dvd x" and "c dvd m"
    then have "c dvd x * y + m * (- k)"
      by (intro dvd_add dvd_mult2)
    with \<open>x * y + m * (- k) = 1\<close> show "is_unit c" by simp
  qed
  with assms(2) show ?thesis by simp
qed


lemma foldl_times: "foldl (\<lambda>x y. x * y) (x::int) xs = x * prod_list xs"
  by (induction xs arbitrary: x) (simp_all add: mult.assoc)

lemma list_index_mem:
  "x \<in> set xs \<Longrightarrow> \<exists>k. list_index xs x = Inr k \<and> k < length xs \<and> xs ! k = x \<and> (\<forall>j<k. xs ! j \<noteq> x)"
proof (induction xs)
  case Nil
  then show ?case by simp
next
  case (Cons y ys)
  show ?case
  proof (cases "y = x")
    case True
    then show ?thesis by simp
  next
    case False
    with Cons.prems have "x \<in> set ys" by simp
    from Cons.IH [OF this] obtain k where k: "list_index ys x = Inr k" "k < length ys"
      "ys ! k = x" "\<forall>j<k. ys ! j \<noteq> x" by blast
    have "\<forall>j<Suc k. (y # ys) ! j \<noteq> x"
      using False k(4) by (auto simp: nth_Cons split: nat.splits)
    with False k show ?thesis by simp
  qed
qed

lemma CRT_loop_append:
  "CRT_loop moudle a M acc (xs @ ys) =
     (case CRT_loop moudle a M acc xs of Inl e \<Rightarrow> Inl e | Inr r \<Rightarrow> CRT_loop moudle a M r ys)"
  by (induction xs arbitrary: acc) (auto simp: Let_def split: sum.splits)

lemma CRT_loop_total:
  assumes "M \<noteq> 0"
    and "\<forall>mi\<in>set rest. mi \<noteq> 0 \<and> coprime (M div mi) mi \<and> (\<exists>k<length a. list_index moudle mi = Inr k)"
  shows "\<exists>r. CRT_loop moudle a M acc rest = Inr r"
  using assms(2)
proof (induction rest arbitrary: acc)
  case Nil
  then show ?case by simp
next
  case (Cons mi rest)
  from Cons.prems have mi: "mi \<noteq> 0" "coprime (M div mi) mi" by simp_all
  from Cons.prems obtain k where k: "k < length a" "list_index moudle mi = Inr k" by auto
  from invert_coprime [OF mi(1) mi(2)] obtain y where y: "invert (M div mi) mi = Inr y" ..
  from Cons.prems have "\<forall>mi\<in>set rest. mi \<noteq> 0 \<and> coprime (M div mi) mi \<and> (\<exists>k<length a. list_index moudle mi = Inr k)"
    by simp
  from Cons.IH [OF this] show ?case
    using mi k y assms(1) by simp
qed

lemma CRT_loop_mod:
  assumes "m dvd M"
    and "CRT_loop moudle a M acc rest = Inr r"
    and "\<forall>mi\<in>set rest. m dvd M div mi"
  shows "r mod m = acc mod m"
  using assms(2,3)
proof (induction rest arbitrary: acc)
  case Nil
  then show ?case by simp
next
  case (Cons mi rest)
  from Cons.prems(1) obtain y k where
    step: "CRT_loop moudle a M ((acc + a ! k * (M div mi) * y) mod M) rest = Inr r"
    by (auto simp: Let_def split: if_splits sum.splits)
  from Cons.prems(2) have dv: "m dvd M div mi" and "\<forall>mi\<in>set rest. m dvd M div mi"
    by simp_all
  from Cons.IH [OF step this(2)]
  have "r mod m = (acc + a ! k * (M div mi) * y) mod M mod m" .
  also have "\<dots> = (acc + a ! k * (M div mi) * y) mod m"
    using assms(1) by (simp add: mod_mod_cancel)
  also have "\<dots> = acc mod m"
  proof -
    from dv have "m dvd a ! k * (M div mi) * y" by simp
    then show ?thesis
      by (metis mod_add_right_eq dvd_imp_mod_0 add.right_neutral)
  qed
  finally show ?case .
qed

lemma CRT_loop_fails:
  assumes "mi \<in> set rest" and "mi = 0 \<or> M = 0 \<or> \<not> coprime (M div mi) mi"
  shows "\<exists>e. CRT_loop moudle a M acc rest = Inl e"
  using assms(1)
proof (induction rest arbitrary: acc)
  case Nil
  then show ?case by simp
next
  case (Cons h rest)
  show ?case
  proof (cases "h = mi")
    case True
    with assms(2) show ?thesis
      by (auto simp: Let_def invert_not_coprime split: sum.splits)
  next
    case False
    with Cons.prems have "mi \<in> set rest" by simp
    from Cons.IH [OF this] show ?thesis
      by (auto simp: Let_def split: sum.splits)
  qed
qed

lemma CRT_loop_no_inverse:
  assumes "M \<noteq> 0"
    and "\<forall>mi\<in>set rest. mi \<noteq> 0 \<and> (\<exists>k<length a. list_index moudle mi = Inr k)"
    and "\<exists>mi\<in>set rest. \<not> coprime (M div mi) mi"
  shows "CRT_loop moudle a M acc rest = Inl NoInverseExists"
  using assms(2,3)
proof (induction rest arbitrary: acc)
  case Nil
  then show ?case by simp
next
  case (Cons h rest)
  from Cons.prems(1) have h: "h \<noteq> 0" by simp
  from Cons.prems(1) obtain k where k: "k < length a" "list_index moudle h = Inr k" by auto
  show ?case
  proof (cases "coprime (M div h) h")
    case False
    with h show ?thesis
      by (simp add: invert_not_coprime)
  next
    case True
    from invert_coprime [OF h True] obtain y where y: "invert (M div h) h = Inr y" ..
    from True Cons.prems(2) have ex: "\<exists>mi\<in>set rest. \<not> coprime (M div mi) mi" by auto
    from Cons.prems(1) have "\<forall>mi\<in>set rest. mi \<noteq> 0 \<and> (\<exists>k<length a. list_index moudle mi = Inr k)"
      by simp
    from Cons.IH [OF this ex] show ?thesis
      using h k y assms(1) by simp
  qed
qed

lemma CRT_Cons:
  "CRT (m # ms) a =
     (case CRT_loop (m # ms) a (prod_list (m # ms)) 0 (m # ms) of
        Inl e \<Rightarrow> Inl e
      | Inr result \<Rightarrow> if prod_list (m # ms) = 0 then Inl DivisionByZero
                     else Inr (result mod prod_list (m # ms)))"
  unfolding CRT_def
  by (simp only: reduce.simps sum.case foldl_times prod_list.Cons)

lemma CRT_nonempty:
  "moudle \<noteq> [] \<Longrightarrow> CRT moudle a =
     (case CRT_loop moudle a (prod_list moudle) 0 moudle of
        Inl e \<Rightarrow> Inl e
      | Inr result \<Rightarrow> if prod_list moudle = 0 then Inl DivisionByZero
                     else Inr (result mod prod_list moudle))"
  by (cases moudle) (simp_all only: CRT_Cons list.distinct)

lemma prod_list_split:
  fixes ms :: "int list"
  shows "i < length ms \<Longrightarrow>
     prod_list ms = ms ! i * (prod_list (take i ms) * prod_list (drop (Suc i) ms))"
proof -
  assume "i < length ms"
  then have "ms = take i ms @ ms ! i # drop (Suc i) ms"
    by (rule id_take_nth_drop)
  then have "prod_list ms = prod_list (take i ms @ ms ! i # drop (Suc i) ms)"
    by simp
  also have "\<dots> = ms ! i * (prod_list (take i ms) * prod_list (drop (Suc i) ms))"
    by (simp add: mult_ac)
  finally show ?thesis .
qed

lemma div_others:
  fixes ms :: "int list"
  assumes "i < length ms" and "ms ! i \<noteq> 0"
  shows "prod_list ms div ms ! i = prod_list (take i ms) * prod_list (drop (Suc i) ms)"
  using prod_list_split [OF assms(1)] assms(2) by simp

lemma others_dvd:
  fixes ms :: "int list"
  assumes "i < length ms" and "j < length ms" and "i \<noteq> j" and "ms ! j \<noteq> 0"
  shows "ms ! i dvd prod_list ms div ms ! j"
proof -
  have "ms ! i \<in> set (take j ms) \<or> ms ! i \<in> set (drop (Suc j) ms)"
  proof (cases "i < j")
    case True
    then have "ms ! i = take j ms ! i" by simp
    moreover have "i < length (take j ms)" using True assms(2) by simp
    ultimately show ?thesis by (metis nth_mem)
  next
    case False
    with assms(3) have "Suc j \<le> i" by simp
    then obtain d where d: "i = Suc j + d" using le_Suc_ex by blast
    with assms(1) have "d < length (drop (Suc j) ms)" by simp
    moreover have "drop (Suc j) ms ! d = ms ! i"
      using d assms(1) by simp
    ultimately show ?thesis by (metis nth_mem)
  qed
  then have "ms ! i dvd prod_list (take j ms) * prod_list (drop (Suc j) ms)"
    by (auto dest: prod_list_dvd)
  with div_others [OF assms(2,4)] show ?thesis by simp
qed

text \<open>
  Claim C2. For moduli and remainders of equal length, the moduli positive and pairwise
  coprime and every remainder in range, \<open>CRT\<close> returns a number when the lists are not
  empty, and every number it returns leaves the remainder \<open>a ! i\<close> modulo
  \<open>moudle ! i\<close>, for every index \<open>i\<close>. (On empty lists \<^verbatim>\<open>reduce\<close> raises.)
\<close>
theorem CRT_solves:
  assumes len: "length moudle = length a"
    and pos: "\<forall>i<length moudle. 0 < moudle ! i"
    and cop: "\<forall>i<length moudle. \<forall>j<length moudle. i \<noteq> j \<longrightarrow> coprime (moudle ! i) (moudle ! j)"
    and rem: "\<forall>i<length moudle. 0 \<le> a ! i \<and> a ! i < moudle ! i"
  shows "(moudle \<noteq> [] \<longrightarrow> (\<exists>x. CRT moudle a = Inr x)) \<and>
         (\<forall>x. CRT moudle a = Inr x \<longrightarrow> (\<forall>i<length moudle. x mod moudle ! i = a ! i))"
proof -
  define M where "M = prod_list moudle"
  have nz: "\<And>m. m \<in> set moudle \<Longrightarrow> m \<noteq> 0"
    using pos by (auto simp: in_set_conv_nth)
  then have M: "M \<noteq> 0"
    by (auto simp: M_def prod_list_zero_iff)
  have copM: "coprime (M div moudle ! i) (moudle ! i)" if "i < length moudle" for i
  proof -
    have "coprime x (moudle ! i)" if "x \<in> set (take i moudle)" for x
    proof -
      from that obtain j where "j < i" "j < length moudle" "x = moudle ! j"
        by (auto simp: in_set_conv_nth)
      with cop \<open>i < length moudle\<close> show ?thesis by auto
    qed
    moreover have "coprime x (moudle ! i)" if "x \<in> set (drop (Suc i) moudle)" for x
    proof -
      from that obtain d where "d < length moudle - Suc i" "x = moudle ! (Suc i + d)"
        by (auto simp: in_set_conv_nth)
      with cop \<open>i < length moudle\<close> show ?thesis by auto
    qed
    ultimately have c: "coprime (prod_list (take i moudle) * prod_list (drop (Suc i) moudle)) (moudle ! i)"
      by (simp add: prod_list_coprime_left)
    from pos that have "moudle ! i \<noteq> 0" by auto
    from c div_others [OF that this] show ?thesis
      by (simp only: M_def)
  qed
  have ok: "\<forall>mi\<in>set moudle. mi \<noteq> 0 \<and> coprime (M div mi) mi \<and> (\<exists>k<length a. list_index moudle mi = Inr k)"
  proof
    fix mi assume mi: "mi \<in> set moudle"
    then obtain i where i: "i < length moudle" "moudle ! i = mi"
      by (auto simp: in_set_conv_nth)
    from list_index_mem [OF mi] len have "\<exists>k<length a. list_index moudle mi = Inr k"
      by auto
    with nz [OF mi] copM [OF i(1)] i(2)
    show "mi \<noteq> 0 \<and> coprime (M div mi) mi \<and> (\<exists>k<length a. list_index moudle mi = Inr k)"
      by simp
  qed
  have total: "moudle \<noteq> [] \<longrightarrow> (\<exists>x. CRT moudle a = Inr x)"
  proof
    assume ne: "moudle \<noteq> []"
    from CRT_loop_total [OF M ok] obtain r where "CRT_loop moudle a M 0 moudle = Inr r" ..
    with M show "\<exists>x. CRT moudle a = Inr x"
      by (simp add: CRT_nonempty [OF ne] M_def)
  qed
  have sound: "x mod moudle ! i = a ! i" if x: "CRT moudle a = Inr x" and i: "i < length moudle" for x i
  proof -
    from i have ne: "moudle \<noteq> []" by auto
    from x obtain r where r: "CRT_loop moudle a M 0 moudle = Inr r" and xr: "x = r mod M"
      by (auto simp: CRT_nonempty [OF ne] M_def split: sum.splits if_splits)
    define mi where "mi = moudle ! i"
    define pre where "pre = take i moudle"
    define post where "post = drop (Suc i) moudle"
    have split: "moudle = pre @ mi # post"
      unfolding pre_def post_def mi_def using i by (rule id_take_nth_drop)
    have mi0: "0 < mi" using pos i by (simp add: mi_def)
    have miM: "mi dvd M"
      using i by (simp add: M_def mi_def prod_list_dvd)
    have dv_pre: "\<forall>mj\<in>set pre. mi dvd M div mj"
    proof
      fix mj assume "mj \<in> set pre"
      then obtain j where j: "j < i" "mj = moudle ! j"
        using i by (auto simp: pre_def in_set_conv_nth)
      from j(1) i have "j < length moudle" by simp
      with pos have "moudle ! j \<noteq> 0" by fastforce
      with others_dvd [of i moudle j] i j show "mi dvd M div mj"
        by (simp add: M_def mi_def)
    qed
    have dv_post: "\<forall>mj\<in>set post. mi dvd M div mj"
    proof
      fix mj assume "mj \<in> set post"
      then obtain d where d: "d < length moudle - Suc i" "mj = moudle ! (Suc i + d)"
        by (auto simp: post_def in_set_conv_nth)
      from d(1) have "Suc i + d < length moudle" by simp
      with pos have "moudle ! (Suc i + d) \<noteq> 0" by fastforce
      with others_dvd [of i moudle "Suc i + d"] i d show "mi dvd M div mj"
        by (simp add: M_def mi_def)
    qed
    from r obtain r0 where r0: "CRT_loop moudle a M 0 pre = Inr r0"
      and r1: "CRT_loop moudle a M r0 (mi # post) = Inr r"
      by (subst (asm) split) (auto simp: CRT_loop_append split: sum.splits)
    from r1 obtain y k where y: "invert (M div mi) mi = Inr y"
      and k: "list_index moudle mi = Inr k"
      and r2: "CRT_loop moudle a M ((r0 + a ! k * (M div mi) * y) mod M) post = Inr r"
      by (auto simp: Let_def split: if_splits sum.splits)
    have "x mod mi = r mod mi"
      using miM by (simp add: xr mod_mod_cancel)
    also have "\<dots> = (r0 + a ! k * (M div mi) * y) mod M mod mi"
      by (rule CRT_loop_mod [OF miM r2 dv_post])
    also have "\<dots> = (r0 + a ! k * (M div mi) * y) mod mi"
      using miM by (simp add: mod_mod_cancel)
    also have "\<dots> = (r0 mod mi + a ! k * ((M div mi) * y mod mi)) mod mi"
      by (metis mod_add_left_eq mod_mult_right_eq mod_add_right_eq mult.assoc)
    also have "r0 mod mi = 0"
      using CRT_loop_mod [OF miM r0 dv_pre] by simp
    also have "(M div mi) * y mod mi = 1 mod mi"
      using invert_Inr [OF y] by simp
    finally have xk: "x mod mi = a ! k mod mi"
      by (simp add: mod_mult_right_eq)
    have "mi \<in> set moudle" using i by (simp add: mi_def)
    from list_index_mem [OF this] k
    have kk: "k < length moudle" "moudle ! k = mi" "\<forall>j<k. moudle ! j \<noteq> mi"
      by auto
    show ?thesis
    proof (cases "k = i")
      case True
      with xk rem i mi0 show ?thesis
        by (simp add: mi_def)
    next
      case False
      with cop kk(1) i have "coprime (moudle ! k) (moudle ! i)" by blast
      with kk(2) mi0 have "mi = 1" by (simp add: mi_def)
      with rem i have "a ! i = 0" by (auto simp: mi_def)
      with \<open>mi = 1\<close> show ?thesis by (simp add: mi_def [symmetric])
    qed
  qed
  from total sound show ?thesis by blast
qed

theorem CRT_solves_witness:
  "length [3, 5, 7 :: int] = length [2, 4, 3 :: int] \<and>
   (\<exists>x. CRT [3, 5, 7] [2, 4, 3] = Inr x \<and> x mod 3 = 2 \<and> x mod 5 = 4 \<and> x mod 7 = 3)"
proof -
  have h1: "length [3, 5, 7 :: int] = length [2, 4, 3 :: int]" by simp
  have h2: "\<forall>i<length [3, 5, 7 :: int]. 0 < [3, 5, 7 :: int] ! i"
    by (simp add: less_Suc_eq numeral_3_eq_3 all_conj_distrib)
  have g: "gcd (3::int) 5 = 1" "gcd (3::int) 7 = 1" "gcd (5::int) 7 = 1"
    by code_simp+
  have h3: "\<forall>i<length [3, 5, 7 :: int]. \<forall>j<length [3, 5, 7 :: int].
              i \<noteq> j \<longrightarrow> coprime ([3, 5, 7 :: int] ! i) ([3, 5, 7] ! j)"
    by (simp add: less_Suc_eq numeral_3_eq_3 all_conj_distrib coprime_iff_gcd_eq_1 gcd.commute g)
  have h4: "\<forall>i<length [3, 5, 7 :: int]. 0 \<le> [2, 4, 3 :: int] ! i \<and> [2, 4, 3 :: int] ! i < [3, 5, 7] ! i"
    by (simp add: less_Suc_eq numeral_3_eq_3 all_conj_distrib)
  from CRT_solves [OF h1 h2 h3 h4] obtain x where
    x: "CRT [3, 5, 7] [2, 4, 3] = Inr x" by auto
  with CRT_solves [OF h1 h2 h3 h4] have "\<forall>i<length [3, 5, 7 :: int]. x mod [3, 5, 7] ! i = [2, 4, 3] ! i"
    by blast
  then have "x mod 3 = 2 \<and> x mod 5 = 4 \<and> x mod 7 = 3"
    by (simp add: less_Suc_eq numeral_3_eq_3 all_conj_distrib)
  with x h1 show ?thesis by blast
qed

text \<open>
  Claim C10. \<open>CRT\<close> on the moduli \<open>[3, 5, 7]\<close> and the remainders \<open>[2, 4, 3]\<close>
  returns exactly \<open>59\<close>.
\<close>
theorem CRT_known_vector: "CRT [3, 5, 7] [2, 4, 3] = Inr 59"
  by code_simp

text \<open>
  Claim C8. When some modulus is not coprime to the product of the others, \<open>CRT\<close>
  never returns a number; with nonzero moduli and a remainder for every modulus the failure
  is the one of the modular inverse, \<open>NoInverseExists\<close>. The witness is the input
  \<open>[4, 6]\<close>, \<open>[1, 1]\<close>.
\<close>
theorem CRT_not_coprime:
  assumes i: "i < length moudle"
    and bad: "gcd (prod_list (take i moudle) * prod_list (drop (Suc i) moudle)) (moudle ! i) \<noteq> 1"
  shows "(\<exists>e. CRT moudle a = Inl e) \<and>
         ((\<forall>m\<in>set moudle. m \<noteq> 0) \<and> length moudle \<le> length a \<longrightarrow>
            CRT moudle a = Inl NoInverseExists)"
proof -
  define M where "M = prod_list moudle"
  define mi where "mi = moudle ! i"
  from i have ne: "moudle \<noteq> []" by auto
  from i have mem: "mi \<in> set moudle" by (simp add: mi_def)
  have notcop: "\<not> coprime (M div mi) mi" if "mi \<noteq> 0"
    using bad div_others [OF i] that
    by (simp add: M_def mi_def coprime_iff_gcd_eq_1)
  then have "mi = 0 \<or> M = 0 \<or> \<not> coprime (M div mi) mi" by blast
  from CRT_loop_fails [OF mem this]
  obtain e where "CRT_loop moudle a M 0 moudle = Inl e" by blast
  then have first: "\<exists>e. CRT moudle a = Inl e"
    by (simp add: CRT_nonempty [OF ne] M_def)
  have second: "CRT moudle a = Inl NoInverseExists"
    if nz: "\<forall>m\<in>set moudle. m \<noteq> 0" and len: "length moudle \<le> length a"
  proof -
    from nz have M: "M \<noteq> 0"
      by (auto simp: M_def prod_list_zero_iff)
    have ok: "\<forall>m\<in>set moudle. m \<noteq> 0 \<and> (\<exists>k<length a. list_index moudle m = Inr k)"
    proof
      fix m assume m: "m \<in> set moudle"
      from list_index_mem [OF m] len have "\<exists>k<length a. list_index moudle m = Inr k"
        by auto
      with nz m show "m \<noteq> 0 \<and> (\<exists>k<length a. list_index moudle m = Inr k)" by simp
    qed
    from nz mem have "mi \<noteq> 0" by simp
    with notcop mem have "\<exists>m\<in>set moudle. \<not> coprime (M div m) m" by blast
    from CRT_loop_no_inverse [OF M ok this]
    have "CRT_loop moudle a M 0 moudle = Inl NoInverseExists" .
    then show ?thesis
      by (simp add: CRT_nonempty [OF ne] M_def)
  qed
  from first second show ?thesis by blast
qed

theorem CRT_not_coprime_witness:
  "0 < length [4, 6 :: int] \<and>
   gcd (prod_list (take 0 [4, 6 :: int]) * prod_list (drop (Suc 0) [4, 6])) ([4, 6] ! 0) \<noteq> 1 \<and>
   length [4, 6 :: int] \<le> length [1, 1 :: int] \<and>
   CRT [4, 6] [1, 1] = Inl NoInverseExists"
proof -
  have g: "gcd (6::int) 4 = 2" by code_simp
  have h1: "0 < length [4, 6 :: int]" by simp
  have h2: "gcd (prod_list (take 0 [4, 6 :: int]) * prod_list (drop (Suc 0) [4, 6])) ([4, 6] ! 0) \<noteq> 1"
    by (simp add: g)
  have h3: "(\<forall>m\<in>set [4, 6 :: int]. m \<noteq> 0) \<and> length [4, 6 :: int] \<le> length [1, 1 :: int]"
    by simp
  from CRT_not_coprime [OF h1 h2, of "[1, 1]"] h3
  have "CRT [4, 6] [1, 1] = Inl NoInverseExists" by blast
  with h1 h2 show ?thesis by simp
qed


section \<open>Properties of the string operations\<close>

lemma str_in_sublist: "str_in x s = sublist x s"
  by (induction s) (simp_all add: sublist_Cons_right)

lemma sublist_short: "length s \<le> length x \<Longrightarrow> sublist x s \<longleftrightarrow> s = x"
proof
  assume le: "length s \<le> length x" and "sublist x s"
  then obtain ps ss where s: "s = ps @ x @ ss" by (auto simp: sublist_def)
  with le have "ps = []" "ss = []" by simp_all
  with s show "s = x" by simp
qed auto

lemma str_in_short: "length s \<le> length x \<Longrightarrow> str_in x s \<longleftrightarrow> s = x"
  by (simp add: str_in_sublist sublist_short)

lemma slice_py_forward:
  "0 \<le> p \<Longrightarrow> slice_py s p (p + int n) = take n (drop (nat p) s)"
  by (auto simp: slice_py_def slice_bound_def Let_def min_def nat_add_distrib)

lemma slice_bound_add: "slice_bound L (p + int n) \<le> slice_bound L p + n"
  unfolding slice_bound_def by (cases "p < 0"; cases "p + int n < 0"; simp; linarith)

lemma length_slice_py_le:
  "length (slice_py s p (p + int n)) \<le> n"
  using slice_bound_add [of "length s" p n]
  by (simp add: slice_py_def Let_def)

lemma slice_from_forward: "0 \<le> p \<Longrightarrow> slice_from s p = drop (nat p) s"
  by (auto simp: slice_from_def slice_bound_def min_def)

text \<open>A slice no longer than the content contains it only by being equal to it.\<close>

lemma str_in_slice:
  "str_in content (slice_py address p (p + int (length content))) \<longleftrightarrow>
     slice_py address p (p + int (length content)) = content"
  by (rule str_in_short) (rule length_slice_py_le)

lemma slice_py_backward:
  assumes "p < 0" and "- int (length s) \<le> p" and "p + int n < 0"
  shows "slice_py s p (p + int n) = take n (drop (nat (int (length s) + p)) s)"
proof -
  have a: "slice_bound (length s) p = nat (int (length s) + p)"
    using assms by (simp add: slice_bound_def max_def add.commute)
  have b: "slice_bound (length s) (p + int n) = nat (int (length s) + p) + n"
    using assms by (simp add: slice_bound_def max_def add.commute nat_add_distrib)
  show ?thesis
    by (simp add: slice_py_def Let_def a b)
qed

lemma slice_py_far_backward:
  assumes "p < - int (length s)" and "n \<noteq> 0"
  shows "length (slice_py s p (p + int n)) < n"
  using assms by (auto simp: slice_py_def slice_bound_def Let_def min_def max_def)


section \<open>The search loops\<close>

lemma body_if:
  "(let current_time = t (Suc i); elapsed_time = current_time - t 0
    in if 10 \<le> elapsed_time then Some (Inl TimeOut)
       else case create2 k D H i of
         Inl e \<Rightarrow> Some (Inl e)
       | Inr (salt, address) \<Rightarrow>
           if p = 0 \<and> str_in c (slice_py address p (p + int (length c)))
           then Some (Inr (''0x'' @ salt, ''0x'' @ address))
           else if 0 < p \<and> str_in c (slice_py address p (p + int (length c)))
           then Some (Inr (''0x'' @ salt, ''0x'' @ address))
           else if p < 0 \<and> p \<noteq> - 4 \<and> str_in c (slice_py address p (p + int (length c)))
           then Some (Inr (''0x'' @ salt, ''0x'' @ address))
           else if p = - 4 \<and> str_in c (slice_from address p)
           then Some (Inr (''0x'' @ salt, ''0x'' @ address))
           else X) =
   (if passes t (create2 k D H) (hit c p) i then X else Some (leaves t (create2 k D H) i))"
  by (auto simp: passes_def leaves_def hit_def Let_def split: sum.splits prod.splits)

lemma two_body_if:
  "(let current_time = t (Suc i); elapsed_time = current_time - t 0
    in if 10 \<le> elapsed_time then Some (Inl TimeOut)
       else case create2 k D H i of
         Inl e \<Rightarrow> Some (Inl e)
       | Inr (salt, address) \<Rightarrow>
           if str_in c1 (slice_py address p1 (p1 + int (length c1))) \<and>
              str_in c2 (slice_py address p2 (p2 + int (length c2)))
           then Some (Inr (''0x'' @ salt, ''0x'' @ address))
           else X) =
   (if passes t (create2 k D H) (hit_two c1 c2 p1 p2) i then X
    else Some (leaves t (create2 k D H) i))"
  by (auto simp: passes_def leaves_def hit_two_def Let_def split: sum.splits prod.splits)

lemma loop_unfold:
  "GetSpecialAddressByCreate2_loop k t D H c p i =
     (if passes t (create2 k D H) (hit c p) i
      then GetSpecialAddressByCreate2_loop k t D H c p (Suc i)
      else Some (leaves t (create2 k D H) i))"
  by (subst GetSpecialAddressByCreate2_loop.simps) (rule body_if)

lemma two_loop_unfold:
  "GetSpecialAddressByCreate2_two_loop k t D H c1 c2 p1 p2 i =
     (if passes t (create2 k D H) (hit_two c1 c2 p1 p2) i
      then GetSpecialAddressByCreate2_two_loop k t D H c1 c2 p1 p2 (Suc i)
      else Some (leaves t (create2 k D H) i))"
  by (subst GetSpecialAddressByCreate2_two_loop.simps) (rule two_body_if)

text \<open>A loop of this shape stops at the first iteration that does not pass.\<close>

lemma first_stop:
  fixes L :: "nat \<Rightarrow> 'r option"
  assumes unfold: "\<And>i. L i = (if P i then L (Suc i) else Some (out i))"
    and run: "\<forall>j. i \<le> j \<and> j < n \<longrightarrow> P j"
    and stop: "\<not> P n" and le: "i \<le> n"
  shows "L i = Some (out n)"
  using run le
proof (induction "n - i" arbitrary: i)
  case 0
  then have "i = n" by simp
  with stop show ?case by (subst unfold) simp
next
  case (Suc d)
  then have "i < n" by simp
  with Suc.prems have Pi: "P i" by simp
  have "L (Suc i) = Some (out n)"
  proof (rule Suc.hyps(1))
    show "d = n - Suc i" using Suc.hyps(2) by simp
    show "\<forall>j. Suc i \<le> j \<and> j < n \<longrightarrow> P j" using Suc.prems(1) by simp
    show "Suc i \<le> n" using \<open>i < n\<close> by simp
  qed
  with Pi show ?case by (subst unfold) simp
qed

lemma extend_run:
  assumes "P i" and "Suc i \<le> n" and "\<forall>j. Suc i \<le> j \<and> j < n \<longrightarrow> P j"
  shows "\<forall>j. i \<le> j \<and> j < n \<longrightarrow> P j"
proof (intro allI impI)
  fix j assume "i \<le> j \<and> j < n"
  then have "j = i \<or> (Suc i \<le> j \<and> j < n)" by auto
  with assms show "P j" by auto
qed

lemma loop_stops:
  assumes "GetSpecialAddressByCreate2_loop k t D H c p i = Some r"
  shows "\<exists>n\<ge>i. (\<forall>j. i \<le> j \<and> j < n \<longrightarrow> passes t (create2 k D H) (hit c p) j) \<and>
           \<not> passes t (create2 k D H) (hit c p) n \<and> r = leaves t (create2 k D H) n"
proof -
  define Q where "Q = (\<lambda>k t D H c p i r.
    \<exists>n\<ge>i. (\<forall>j. i \<le> j \<and> j < n \<longrightarrow> passes t (create2 k D H) (hit c p) j) \<and>
           \<not> passes t (create2 k D H) (hit c p) n \<and> r = leaves t (create2 k D H) n)"
  have "Q k t D H c p i r"
  proof (rule GetSpecialAddressByCreate2_loop.raw_induct [where P = Q, OF _ assms])
    fix f k t D H c p i r
    assume IH: "\<And>k t D H c p i r. f k t D H c p i = Some r \<Longrightarrow> Q k t D H c p i r"
    assume "(let current_time = t (Suc i); elapsed_time = current_time - t 0
      in if 10 \<le> elapsed_time then Some (Inl TimeOut)
         else case create2 k D H i of
           Inl e \<Rightarrow> Some (Inl e)
         | Inr (salt, address) \<Rightarrow>
             if p = 0 \<and> str_in c (slice_py address p (p + int (length c)))
             then Some (Inr (''0x'' @ salt, ''0x'' @ address))
             else if 0 < p \<and> str_in c (slice_py address p (p + int (length c)))
             then Some (Inr (''0x'' @ salt, ''0x'' @ address))
             else if p < 0 \<and> p \<noteq> - 4 \<and> str_in c (slice_py address p (p + int (length c)))
             then Some (Inr (''0x'' @ salt, ''0x'' @ address))
             else if p = - 4 \<and> str_in c (slice_from address p)
             then Some (Inr (''0x'' @ salt, ''0x'' @ address))
             else f k t D H c p (Suc i)) = Some r"
    then have body: "(if passes t (create2 k D H) (hit c p) i then f k t D H c p (Suc i)
                      else Some (leaves t (create2 k D H) i)) = Some r"
      by (simp only: body_if)
    show "Q k t D H c p i r"
    proof (cases "passes t (create2 k D H) (hit c p) i")
      case True
      with body have "f k t D H c p (Suc i) = Some r" by simp
      from IH [OF this] obtain n where n: "Suc i \<le> n"
        "\<forall>j. Suc i \<le> j \<and> j < n \<longrightarrow> passes t (create2 k D H) (hit c p) j"
        "\<not> passes t (create2 k D H) (hit c p) n" "r = leaves t (create2 k D H) n"
        unfolding Q_def by blast
      from extend_run [of "passes t (create2 k D H) (hit c p)", OF True n(1) n(2)] n
      show ?thesis unfolding Q_def by (intro exI [of _ n]) simp
    next
      case False
      with body have "r = leaves t (create2 k D H) i" by simp
      with False show ?thesis unfolding Q_def by (intro exI [of _ i]) auto
    qed
  qed
  then show ?thesis by (simp only: Q_def)
qed

lemma two_loop_stops:
  assumes "GetSpecialAddressByCreate2_two_loop k t D H c1 c2 p1 p2 i = Some r"
  shows "\<exists>n\<ge>i. (\<forall>j. i \<le> j \<and> j < n \<longrightarrow> passes t (create2 k D H) (hit_two c1 c2 p1 p2) j) \<and>
           \<not> passes t (create2 k D H) (hit_two c1 c2 p1 p2) n \<and> r = leaves t (create2 k D H) n"
proof -
  define Q where "Q = (\<lambda>k t D H c1 c2 p1 p2 i r.
    \<exists>n\<ge>i. (\<forall>j. i \<le> j \<and> j < n \<longrightarrow> passes t (create2 k D H) (hit_two c1 c2 p1 p2) j) \<and>
           \<not> passes t (create2 k D H) (hit_two c1 c2 p1 p2) n \<and> r = leaves t (create2 k D H) n)"
  have "Q k t D H c1 c2 p1 p2 i r"
  proof (rule GetSpecialAddressByCreate2_two_loop.raw_induct [where P = Q, OF _ assms])
    fix f k t D H c1 c2 p1 p2 i r
    assume IH: "\<And>k t D H c1 c2 p1 p2 i r. f k t D H c1 c2 p1 p2 i = Some r
                  \<Longrightarrow> Q k t D H c1 c2 p1 p2 i r"
    assume "(let current_time = t (Suc i); elapsed_time = current_time - t 0
      in if 10 \<le> elapsed_time then Some (Inl TimeOut)
         else case create2 k D H i of
           Inl e \<Rightarrow> Some (Inl e)
         | Inr (salt, address) \<Rightarrow>
             if str_in c1 (slice_py address p1 (p1 + int (length c1))) \<and>
                str_in c2 (slice_py address p2 (p2 + int (length c2)))
             then Some (Inr (''0x'' @ salt, ''0x'' @ address))
             else f k t D H c1 c2 p1 p2 (Suc i)) = Some r"
    then have body: "(if passes t (create2 k D H) (hit_two c1 c2 p1 p2) i
                      then f k t D H c1 c2 p1 p2 (Suc i)
                      else Some (leaves t (create2 k D H) i)) = Some r"
      by (simp only: two_body_if)
    show "Q k t D H c1 c2 p1 p2 i r"
    proof (cases "passes t (create2 k D H) (hit_two c1 c2 p1 p2) i")
      case True
      with body have "f k t D H c1 c2 p1 p2 (Suc i) = Some r" by simp
      from IH [OF this] obtain n where n: "Suc i \<le> n"
        "\<forall>j. Suc i \<le> j \<and> j < n \<longrightarrow> passes t (create2 k D H) (hit_two c1 c2 p1 p2) j"
        "\<not> passes t (create2 k D H) (hit_two c1 c2 p1 p2) n" "r = leaves t (create2 k D H) n"
        unfolding Q_def by blast
      from extend_run [of "passes t (create2 k D H) (hit_two c1 c2 p1 p2)", OF True n(1) n(2)] n
      show ?thesis unfolding Q_def by (intro exI [of _ n]) simp
    next
      case False
      with body have "r = leaves t (create2 k D H) i" by simp
      with False show ?thesis unfolding Q_def by (intro exI [of _ i]) auto
    qed
  qed
  then show ?thesis by (simp only: Q_def)
qed

text \<open>The two searches, characterised: the run from counter \<open>0\<close>.\<close>

lemma loop_iff:
  "GetSpecialAddressByCreate2_loop k t D H c p 0 = Some r \<longleftrightarrow>
     (\<exists>n. (\<forall>j<n. passes t (create2 k D H) (hit c p) j) \<and>
          \<not> passes t (create2 k D H) (hit c p) n \<and> r = leaves t (create2 k D H) n)"
proof
  assume "GetSpecialAddressByCreate2_loop k t D H c p 0 = Some r"
  from loop_stops [OF this] show "\<exists>n. (\<forall>j<n. passes t (create2 k D H) (hit c p) j) \<and>
          \<not> passes t (create2 k D H) (hit c p) n \<and> r = leaves t (create2 k D H) n"
    by auto
next
  assume "\<exists>n. (\<forall>j<n. passes t (create2 k D H) (hit c p) j) \<and>
          \<not> passes t (create2 k D H) (hit c p) n \<and> r = leaves t (create2 k D H) n"
  then obtain n where n: "\<forall>j<n. passes t (create2 k D H) (hit c p) j"
    "\<not> passes t (create2 k D H) (hit c p) n" "r = leaves t (create2 k D H) n" by blast
  have "GetSpecialAddressByCreate2_loop k t D H c p 0 = Some (leaves t (create2 k D H) n)"
    by (rule first_stop [where P = "passes t (create2 k D H) (hit c p)"])
       (use n in \<open>simp_all add: loop_unfold [symmetric]\<close>)
  with n(3) show "GetSpecialAddressByCreate2_loop k t D H c p 0 = Some r" by simp
qed


lemma two_loop_iff:
  "GetSpecialAddressByCreate2_two_loop k t D H c1 c2 p1 p2 0 = Some r \<longleftrightarrow>
     (\<exists>n. (\<forall>j<n. passes t (create2 k D H) (hit_two c1 c2 p1 p2) j) \<and>
          \<not> passes t (create2 k D H) (hit_two c1 c2 p1 p2) n \<and> r = leaves t (create2 k D H) n)"
proof
  assume "GetSpecialAddressByCreate2_two_loop k t D H c1 c2 p1 p2 0 = Some r"
  from two_loop_stops [OF this]
  show "\<exists>n. (\<forall>j<n. passes t (create2 k D H) (hit_two c1 c2 p1 p2) j) \<and>
          \<not> passes t (create2 k D H) (hit_two c1 c2 p1 p2) n \<and> r = leaves t (create2 k D H) n"
    by auto
next
  assume "\<exists>n. (\<forall>j<n. passes t (create2 k D H) (hit_two c1 c2 p1 p2) j) \<and>
          \<not> passes t (create2 k D H) (hit_two c1 c2 p1 p2) n \<and> r = leaves t (create2 k D H) n"
  then obtain n where n: "\<forall>j<n. passes t (create2 k D H) (hit_two c1 c2 p1 p2) j"
    "\<not> passes t (create2 k D H) (hit_two c1 c2 p1 p2) n" "r = leaves t (create2 k D H) n" by blast
  have "GetSpecialAddressByCreate2_two_loop k t D H c1 c2 p1 p2 0 = Some (leaves t (create2 k D H) n)"
    by (rule first_stop [where P = "passes t (create2 k D H) (hit_two c1 c2 p1 p2)"])
       (use n in \<open>simp_all add: two_loop_unfold [symmetric]\<close>)
  with n(3) show "GetSpecialAddressByCreate2_two_loop k t D H c1 c2 p1 p2 0 = Some r" by simp
qed


section \<open>The test of one iteration against the position semantics\<close>

lemma hit_slice:
  "p \<noteq> - 4 \<Longrightarrow> hit c p a \<longleftrightarrow> slice_py a p (p + int (length c)) = c"
  unfolding hit_def str_in_slice by auto

lemma hit_forward:
  "0 \<le> p \<Longrightarrow> hit c p a \<longleftrightarrow> take (length c) (drop (nat p) a) = c"
  by (simp add: hit_slice slice_py_forward)

lemma hit_tail: "hit c (- 4) a \<longleftrightarrow> sublist c (drop (length a - 4) a)"
proof -
  have "slice_bound (length a) (- 4) = length a - 4"
    by (simp add: slice_bound_def max_def) linarith
  then show ?thesis
    by (simp add: hit_def slice_from_def str_in_sublist)
qed

lemma hit_backward:
  assumes "p < 0" and "p \<noteq> - 4"
  shows "hit c p a \<longleftrightarrow>
           c = [] \<or> (- int (length a) \<le> p \<and> p + int (length c) < 0 \<and>
                     take (length c) (drop (nat (int (length a) + p)) a) = c)"
proof (cases "c = []")
  case True
  have "length (slice_py a p (p + int (length c))) \<le> length c"
    by (rule length_slice_py_le)
  with True show ?thesis
    by (simp add: hit_slice [OF assms(2)])
next
  case False
  then have n: "length c \<noteq> 0" by simp
  show ?thesis
  proof (cases "- int (length a) \<le> p \<and> p + int (length c) < 0")
    case True
    with assms False show ?thesis
      by (simp add: hit_slice slice_py_backward)
  next
    case out: False
    have "length (slice_py a p (p + int (length c))) < length c"
    proof (cases "p < - int (length a)")
      case True
      then show ?thesis using n by (rule slice_py_far_backward)
    next
      case False
      with out have "0 \<le> p + int (length c)" by simp
      with assms(1) n show ?thesis
        by (auto simp: slice_py_def slice_bound_def Let_def min_def max_def)
    qed
    then have "slice_py a p (p + int (length c)) \<noteq> c" by auto
    with out False show ?thesis
      by (auto simp: hit_slice [OF assms(2)])
  qed
qed

lemma hit_satisfies: "hit c p a \<Longrightarrow> satisfies c p a"
proof -
  assume h: "hit c p a"
  consider "p = - 4" | "0 \<le> p" | "p < 0" "p \<noteq> - 4" by linarith
  then show ?thesis
  proof cases
    case 1
    with h show ?thesis by (simp add: satisfies_def hit_tail)
  next
    case 2
    with h show ?thesis by (simp add: satisfies_def occupies_def hit_forward)
  next
    case 3
    with h show ?thesis by (auto simp: satisfies_def occupies_def hit_backward)
  qed
qed

lemma satisfies_hit:
  assumes "satisfies c p a" and "0 \<le> p \<or> p = - 4 \<or> p + int (length c) < 0 \<or> c = []"
  shows "hit c p a"
proof -
  consider "p = - 4" | "0 \<le> p" | "p < 0" "p \<noteq> - 4" by linarith
  then show ?thesis
  proof cases
    case 1
    with assms(1) show ?thesis by (simp add: satisfies_def hit_tail)
  next
    case 2
    with assms(1) show ?thesis by (auto simp: satisfies_def occupies_def hit_forward)
  next
    case 3
    with assms show ?thesis by (auto simp: satisfies_def occupies_def hit_backward)
  qed
qed

text \<open>Where the test can succeed at all, it succeeds on every address that satisfies
  the constraint.\<close>

lemma hit_complete:
  assumes "hit c p a" and "satisfies c p a'"
  shows "hit c p a'"
proof -
  have "0 \<le> p \<or> p = - 4 \<or> p + int (length c) < 0 \<or> c = []"
    using assms(1) hit_backward [of p c a] by (cases "0 \<le> p"; cases "p = - 4") auto
  with assms(2) show ?thesis by (rule satisfies_hit)
qed

text \<open>A negative position whose slice would run up to the end of the string or past it
  never matches: the stop bound of the slice is then not negative and counts from the
  start.\<close>

lemma hit_backward_never:
  assumes "p < 0" and "p \<noteq> - 4" and "0 \<le> p + int (length c)" and "c \<noteq> []"
  shows "\<not> hit c p a"
  using assms by (simp add: hit_backward)

lemma hit_too_long:
  assumes "0 \<le> p" and "int (length a) < p + int (length c)" and "c \<noteq> []"
  shows "\<not> hit c p a"
proof
  assume "hit c p a"
  with assms(1) have "take (length c) (drop (nat p) a) = c" by (simp add: hit_forward)
  then have "length (take (length c) (drop (nat p) a)) = length c" by simp
  then have "length c \<le> length a - nat p" by simp
  moreover from assms(3) have "0 < length c" by simp
  ultimately show False using assms(1,2) by linarith
qed

lemma hit_two_forward:
  "0 \<le> p1 \<Longrightarrow> 0 \<le> p2 \<Longrightarrow>
     hit_two c1 c2 p1 p2 a \<longleftrightarrow>
       take (length c1) (drop (nat p1) a) = c1 \<and> take (length c2) (drop (nat p2) a) = c2"
  unfolding hit_two_def str_in_slice by (simp add: slice_py_forward)

lemma hit_two_exclusive:
  assumes "k < length c1" and "k < length c2" and "c1 ! k \<noteq> c2 ! k"
  shows "\<not> hit_two c1 c2 p p a"
proof
  assume "hit_two c1 c2 p p a"
  then have s1: "slice_py a p (p + int (length c1)) = c1"
    and s2: "slice_py a p (p + int (length c2)) = c2"
    by (simp_all add: hit_two_def str_in_slice)
  define st where "st = slice_bound (length a) p"
  from s1 obtain m1 where m1: "take m1 (drop st a) = c1"
    by (auto simp: slice_py_def Let_def st_def)
  from s2 obtain m2 where m2: "take m2 (drop st a) = c2"
    by (auto simp: slice_py_def Let_def st_def)
  from m1 assms(1) have "c1 ! k = drop st a ! k" by auto
  moreover from m2 assms(2) have "c2 ! k = drop st a ! k" by auto
  ultimately show False using assms(3) by simp
qed

section \<open>The address of a counter\<close>

lemma length_hex02: "length (hex02 b) = 2"
  by (simp add: hex02_def)

lemma length_hex02_concat: "length (concat (map hex02 bs)) = 2 * length bs"
  by (induction bs) (simp_all add: length_hex02)

lemma drop_hex02_concat: "drop (2 * k) (concat (map hex02 bs)) = concat (map hex02 (drop k bs))"
proof (induction bs arbitrary: k)
  case Nil
  then show ?case by simp
next
  case (Cons b bs)
  show ?case
  proof (cases k)
    case 0
    then show ?thesis by simp
  next
    case (Suc k')
    with Cons.IH [of k'] show ?thesis by (simp add: length_hex02)
  qed
qed

lemma create2_cases:
  "create2 k D H i =
     (case to_bytes (''0xff'' @ D @ rjust 64 CHR ''0'' (hex i) @ H) of
        Inl e \<Rightarrow> Inl e
      | Inr bs \<Rightarrow> Inr (rjust 64 CHR ''0'' (hex i), concat (map hex02 (drop 12 (k bs)))))"
proof -
  have "slice_from (concat (map hex02 (k bs))) 24 = concat (map hex02 (drop 12 (k bs)))" for bs
  proof -
    have "slice_from (concat (map hex02 (k bs))) 24 = drop (2 * 12) (concat (map hex02 (k bs)))"
      by (simp add: slice_from_forward)
    then show ?thesis by (simp only: drop_hex02_concat)
  qed
  then show ?thesis
    unfolding create2_def Web3_keccak_def Let_def
    by (cases "to_bytes (''0xff'' @ D @ rjust 64 CHR ''0'' (hex i) @ H)") (simp_all only: sum.case)
qed

lemma create2_Inr:
  assumes "create2 k D H i = Inr (s, a)"
  shows "s = rjust 64 CHR ''0'' (hex i) \<and>
         (\<exists>bs. to_bytes (''0xff'' @ D @ s @ H) = Inr bs \<and>
               a = concat (map hex02 (drop 12 (k bs))))"
proof (cases "to_bytes (''0xff'' @ D @ rjust 64 CHR ''0'' (hex i) @ H)")
  case (Inl e)
  with assms show ?thesis
    by (simp only: create2_cases sum.case sum.distinct)
next
  case (Inr bs)
  with assms have "s = rjust 64 CHR ''0'' (hex i)" "a = concat (map hex02 (drop 12 (k bs)))"
    by (simp_all only: create2_cases sum.case sum.inject prod.inject)
  with Inr show ?thesis by blast
qed

lemma create2_length:
  assumes "digest32 k" and "create2 k D H i = Inr (s, a)"
  shows "length a = 40"
proof -
  from create2_Inr [OF assms(2)] obtain bs where "a = concat (map hex02 (drop 12 (k bs)))"
    by blast
  with assms(1) show ?thesis
    by (simp add: length_hex02_concat digest32_def)
qed


section \<open>Hexadecimal strings\<close>

lemma hexval_hexdigit_all: "list_all (\<lambda>d. hexval (hexdigit d) = Some d) [0..<16]"
  by code_simp

lemma hexval_hexdigit: "d < 16 \<Longrightarrow> hexval (hexdigit d) = Some d"
  using hexval_hexdigit_all by (simp add: list_all_iff)

lemma hexval_zero: "hexval CHR ''0'' = Some 0"
  by (simp add: hexval_def)

lemma hexdigit_zero: "hexdigit 0 = CHR ''0''"
  by (simp add: hexdigit_def)

lemma hex_value_snoc:
  "hex_value (s @ [c]) = 16 * hex_value s + (case hexval c of None \<Rightarrow> 0 | Some d \<Rightarrow> d)"
  by (simp add: hex_value_def)

lemma hex_value_hex: "hex_value (hex n) = n"
proof (induction n rule: hex.induct)
  case (1 n)
  show ?case
  proof (cases "n < 16")
    case True
    then have "hex n = [] @ [hexdigit n]" by (simp add: hex.simps [of n])
    then have "hex_value (hex n) = 16 * hex_value [] + n"
      using True by (simp only: hex_value_snoc hexval_hexdigit option.case)
    then show ?thesis by (simp add: hex_value_def)
  next
    case False
    then have "hex n = hex (n div 16) @ [hexdigit (n mod 16)]" by (simp add: hex.simps [of n])
    then have "hex_value (hex n) = 16 * hex_value (hex (n div 16)) + n mod 16"
      by (simp only: hex_value_snoc) (simp add: hexval_hexdigit)
    with "1.IH" [OF False] show ?thesis by simp
  qed
qed

lemma hex_value_zeros: "hex_value (replicate k CHR ''0'' @ s) = hex_value s"
proof (induction k)
  case 0
  then show ?case by simp
next
  case (Suc k)
  have "hex_value (CHR ''0'' # xs) = hex_value xs" for xs
    by (simp add: hex_value_def hexval_zero)
  with Suc show ?case by simp
qed

lemma hex_value_rjust: "hex_value (rjust w CHR ''0'' (hex n)) = n"
  by (simp add: rjust_def hex_value_zeros hex_value_hex)

lemma rjust_hex_Suc:
  assumes "0 < w"
  shows "rjust (Suc w) CHR ''0'' (hex i) = rjust w CHR ''0'' (hex (i div 16)) @ [hexdigit (i mod 16)]"
proof (cases "i < 16")
  case True
  then have a: "hex i = [hexdigit i]" by (simp add: hex.simps [of i])
  from True have "hex (i div 16) = [CHR ''0'']"
    by (simp add: hex.simps [of 0] hexdigit_zero)
  then have "rjust w CHR ''0'' (hex (i div 16)) = replicate (w - 1) CHR ''0'' @ [CHR ''0'']"
    by (simp add: rjust_def)
  also have "\<dots> = replicate (Suc (w - 1)) CHR ''0''"
    by (simp only: replicate_append_same replicate_Suc)
  also have "\<dots> = replicate w CHR ''0''" using assms by simp
  finally show ?thesis using True by (simp add: rjust_def a)
next
  case False
  then have "hex i = hex (i div 16) @ [hexdigit (i mod 16)]" by (simp add: hex.simps [of i])
  then show ?thesis by (simp add: rjust_def)
qed

lemma unhexlify_length: "unhexlify s = Inr bs \<Longrightarrow> length s = 2 * length bs"
  by (induction s arbitrary: bs rule: unhexlify.induct)
     (auto split: option.splits sum.splits)

lemma unhexlify_append:
  "even (length xs) \<Longrightarrow>
     unhexlify (xs @ ys) =
       (case unhexlify xs of
          Inl e \<Rightarrow> Inl e
        | Inr bs \<Rightarrow> (case unhexlify ys of Inl e \<Rightarrow> Inl e | Inr cs \<Rightarrow> Inr (bs @ cs)))"
  by (induction xs rule: unhexlify.induct)
     (auto split: option.splits sum.splits)

lemma unhexlify_digits:
  "a < 16 \<Longrightarrow> b < 16 \<Longrightarrow> unhexlify [hexdigit a, hexdigit b] = Inr [of_nat (16 * a + b)]"
  by (simp add: hexval_hexdigit)

lemma length_be_bytes: "length (be_bytes k n) = k"
  by (induction k arbitrary: n) simp_all

lemma unhexlify_rjust_hex:
  "0 < k \<Longrightarrow> i < 256 ^ k \<Longrightarrow> unhexlify (rjust (2 * k) CHR ''0'' (hex i)) = Inr (be_bytes k i)"
proof (induction k arbitrary: i)
  case 0
  then show ?case by simp
next
  case (Suc k)
  have byte: "unhexlify [hexdigit (i div 16 mod 16), hexdigit (i mod 16)] = Inr [of_nat (i mod 256)]"
  proof -
    have "i mod (16 * 16) = 16 * (i div 16 mod 16) + i mod 16"
      by (rule mod_mult2_eq)
    then have eq: "16 * (i div 16 mod 16) + i mod 16 = i mod 256" by simp
    have "unhexlify [hexdigit (i div 16 mod 16), hexdigit (i mod 16)] =
            Inr [of_nat (16 * (i div 16 mod 16) + i mod 16)]"
      by (rule unhexlify_digits) simp_all
    then show ?thesis by (simp only: eq)
  qed
  show ?case
  proof (cases "k = 0")
    case True
    with Suc.prems have i: "i < 256" by simp
    then have "i div 16 < 16" by simp
    then have "hex (i div 16) = [hexdigit (i div 16)]" by (simp add: hex.simps [of "i div 16"])
    then have "rjust 2 CHR ''0'' (hex i) = [hexdigit (i div 16), hexdigit (i mod 16)]"
      using rjust_hex_Suc [of 1 i] by (simp add: rjust_def numeral_2_eq_2)
    moreover from \<open>i div 16 < 16\<close> have "i div 16 mod 16 = i div 16" by simp
    ultimately show ?thesis using byte True i by simp
  next
    case False
    then have k: "0 < k" by simp
    from Suc.prems have "i div 256 < 256 ^ k"
      by (simp add: less_mult_imp_div_less mult.commute)
    from Suc.IH [OF k this]
    have IH: "unhexlify (rjust (2 * k) CHR ''0'' (hex (i div 256))) = Inr (be_bytes k (i div 256))" .
    from unhexlify_length [OF this] have ev: "even (length (rjust (2 * k) CHR ''0'' (hex (i div 256))))"
      by simp
    have "rjust (2 * Suc k) CHR ''0'' (hex i) =
            rjust (Suc (2 * k)) CHR ''0'' (hex (i div 16)) @ [hexdigit (i mod 16)]"
      using rjust_hex_Suc [of "Suc (2 * k)" i] by simp
    also have "rjust (Suc (2 * k)) CHR ''0'' (hex (i div 16)) =
            rjust (2 * k) CHR ''0'' (hex (i div 16 div 16)) @ [hexdigit (i div 16 mod 16)]"
      using rjust_hex_Suc [of "2 * k" "i div 16"] k by simp
    also have "i div 16 div 16 = i div 256"
      by (simp add: div_mult2_eq [symmetric])
    finally have "rjust (2 * Suc k) CHR ''0'' (hex i) =
        rjust (2 * k) CHR ''0'' (hex (i div 256)) @ [hexdigit (i div 16 mod 16), hexdigit (i mod 16)]"
      by simp
    then show ?thesis
      by (simp only: unhexlify_append [OF ev] IH byte sum.case be_bytes.simps)
  qed
qed

lemma salt_bytes:
  assumes "i < 2 ^ 256"
  shows "unhexlify (rjust 64 CHR ''0'' (hex i)) = Inr (be_bytes 32 i)"
proof -
  have "(2::nat) ^ 256 = 256 ^ 32" by simp
  with assms have "i < 256 ^ 32" by simp
  from unhexlify_rjust_hex [of 32 i, OF _ this] show ?thesis by simp
qed


section \<open>The preimage of the hash\<close>

lemma remove_0x_prefix_0x: "remove_0x_prefix (CHR ''0'' # CHR ''x'' # s) = s"
  by (simp add: remove_0x_prefix_def)

lemma to_bytes_0x:
  "to_bytes (CHR ''0'' # CHR ''x'' # s) =
     (if odd (length s) then unhexlify (CHR ''0'' # s) else unhexlify s)"
  by (simp add: to_bytes_def Let_def remove_0x_prefix_0x)

lemma unhexlify_ff: "unhexlify ''ff'' = Inr [0xff]"
  by (simp add: hexval_def)

lemma preimage_bytes:
  assumes "length D = 40" and "length H = 64" and "i < 2 ^ 256"
  shows "to_bytes (''0xff'' @ D @ rjust 64 CHR ''0'' (hex i) @ H) =
           (case unhexlify D of
              Inl e \<Rightarrow> Inl e
            | Inr deployer \<Rightarrow>
                (case unhexlify H of
                   Inl e \<Rightarrow> Inl e
                 | Inr initCodeHash \<Rightarrow> Inr (0xff # deployer @ be_bytes 32 i @ initCodeHash)))"
proof -
  define S where "S = rjust 64 CHR ''0'' (hex i)"
  have S: "unhexlify S = Inr (be_bytes 32 i)"
    unfolding S_def using assms(3) by (rule salt_bytes)
  from unhexlify_length [OF this] have lenS: "length S = 64"
    by (simp add: length_be_bytes)
  have "to_bytes (''0xff'' @ D @ S @ H) = unhexlify (''ff'' @ D @ S @ H)"
    using assms(1,2) lenS by (simp add: to_bytes_0x)
  also have "\<dots> = (case unhexlify (D @ S @ H) of Inl e \<Rightarrow> Inl e | Inr cs \<Rightarrow> Inr ([0xff] @ cs))"
    by (subst unhexlify_append) (simp_all only: unhexlify_ff sum.case, simp)
  also have "unhexlify (D @ S @ H) =
      (case unhexlify D of Inl e \<Rightarrow> Inl e
       | Inr bs \<Rightarrow> (case unhexlify (S @ H) of Inl e \<Rightarrow> Inl e | Inr cs \<Rightarrow> Inr (bs @ cs)))"
    by (rule unhexlify_append) (simp add: assms(1))
  also have "unhexlify (S @ H) =
      (case unhexlify H of Inl e \<Rightarrow> Inl e | Inr cs \<Rightarrow> Inr (be_bytes 32 i @ cs))"
    by (subst unhexlify_append) (simp_all only: S sum.case lenS, simp)
  finally show ?thesis
    unfolding S_def by (simp split: sum.splits)
qed

lemma hexstr_append: "hexstr (xs @ ys) \<longleftrightarrow> hexstr xs \<and> hexstr ys"
  by (simp add: hexstr_def)

lemma hexstr_hex: "hexstr (hex i)"
proof (induction i rule: hex.induct)
  case (1 n)
  show ?case
  proof (cases "n < 16")
    case True
    then show ?thesis
      by (simp add: hex.simps [of n] hexstr_def hexval_hexdigit)
  next
    case False
    with "1.IH" show ?thesis
      by (simp add: hex.simps [of n] hexstr_append) (simp add: hexstr_def hexval_hexdigit)
  qed
qed

lemma hexstr_rjust: "hexstr (rjust w CHR ''0'' (hex i))"
  by (simp add: rjust_def hexstr_append hexstr_hex) (simp add: hexstr_def hexval_zero list_all_iff)

lemma unhexlify_total: "hexstr s \<Longrightarrow> even (length s) \<Longrightarrow> \<exists>bs. unhexlify s = Inr bs"
proof (induction s rule: unhexlify.induct)
  case 1
  then show ?case by simp
next
  case (2 c)
  then show ?case by simp
next
  case (3 c d s)
  from "3.prems" obtain h l where "hexval c = Some h" "hexval d = Some l"
    by (auto simp: hexstr_def)
  moreover from "3.prems" have "hexstr s" "even (length s)" by (simp_all add: hexstr_def)
  with "3.IH" calculation obtain bs where "unhexlify s = Inr bs" by blast
  ultimately show ?case by simp
qed

lemma to_bytes_total:
  assumes "hexstr s"
  shows "\<exists>bs. to_bytes (''0xff'' @ s) = Inr bs"
proof -
  have ff: "hexstr ''ff''" "hexstr ''0ff''"
    by (simp_all add: hexstr_def hexval_def)
  show ?thesis
  proof (cases "odd (length s)")
    case True
    have "hexstr (''0ff'' @ s)" using ff assms by (simp only: hexstr_append)
    moreover have "even (length (''0ff'' @ s))" using True by simp
    ultimately obtain bs where "unhexlify (''0ff'' @ s) = Inr bs"
      using unhexlify_total by blast
    with True show ?thesis by (simp add: to_bytes_0x)
  next
    case False
    have "hexstr (''ff'' @ s)" using ff assms by (simp only: hexstr_append)
    moreover have "even (length (''ff'' @ s))" using False by simp
    ultimately obtain bs where "unhexlify (''ff'' @ s) = Inr bs"
      using unhexlify_total by blast
    with False show ?thesis by (simp add: to_bytes_0x)
  qed
qed

lemma create2_total:
  assumes "hexstr D" and "hexstr H"
  shows "\<exists>a. create2 k D H i = Inr (rjust 64 CHR ''0'' (hex i), a)"
proof -
  have "hexstr (D @ rjust 64 CHR ''0'' (hex i) @ H)"
    using assms by (simp only: hexstr_append hexstr_rjust)
  from to_bytes_total [OF this] obtain bs where
    "to_bytes (''0xff'' @ D @ rjust 64 CHR ''0'' (hex i) @ H) = Inr bs" by blast
  then show ?thesis by (simp only: create2_cases sum.case) blast
qed


section \<open>What the searches return\<close>

lemma except_None_pair: "except_None r = Some (RetPair s a) \<longleftrightarrow> r = Some (Inr (s, a))"
  by (cases r rule: except_None.cases) simp_all

lemma except_None_none: "except_None r = Some RetNone \<longleftrightarrow> (\<exists>e. r = Some (Inl e))"
  by (cases r rule: except_None.cases) simp_all

lemma passes_iff:
  "passes t step test j \<longleftrightarrow>
     t (Suc j) - t 0 < 10 \<and> (\<exists>s a. step j = Inr (s, a) \<and> \<not> test a)"
  by (cases "step j") (auto simp: passes_def)

lemma leaves_Inr_iff:
  "leaves t step n = Inr (s, a) \<longleftrightarrow>
     t (Suc n) - t 0 < 10 \<and> (\<exists>s' a'. step n = Inr (s', a') \<and> s = ''0x'' @ s' \<and> a = ''0x'' @ a')"
  by (cases "step n") (auto simp: leaves_def)

lemma leaves_expired: "10 \<le> t (Suc n) - t 0 \<Longrightarrow> leaves t step n = Inl TimeOut"
  by (simp add: leaves_def)

lemma create2_salt: "create2 k D H i = Inr (s, a) \<Longrightarrow> s = rjust 64 CHR ''0'' (hex i)"
  by (simp add: create2_Inr)

lemma stop_pair_iff:
  "(\<exists>n. (\<forall>j<n. passes t (create2 k D H) test j) \<and> \<not> passes t (create2 k D H) test n \<and>
        Inr (salt, address) = leaves t (create2 k D H) n) \<longleftrightarrow>
   (\<exists>i a. salt = ''0x'' @ rjust 64 CHR ''0'' (hex i) \<and> address = ''0x'' @ a \<and>
          create2 k D H i = Inr (rjust 64 CHR ''0'' (hex i), a) \<and> test a \<and>
          (\<forall>j\<le>i. t (Suc j) - t 0 < 10) \<and>
          (\<forall>j<i. \<exists>a'. create2 k D H j = Inr (rjust 64 CHR ''0'' (hex j), a') \<and> \<not> test a'))"
  (is "?L \<longleftrightarrow> ?R")
proof
  assume ?L
  then obtain n where run: "\<forall>j<n. passes t (create2 k D H) test j"
    and stop: "\<not> passes t (create2 k D H) test n"
    and out: "leaves t (create2 k D H) n = Inr (salt, address)" by metis
  from out obtain s' a' where n: "t (Suc n) - t 0 < 10" "create2 k D H n = Inr (s', a')"
    "salt = ''0x'' @ s'" "address = ''0x'' @ a'"
    by (auto simp: leaves_Inr_iff)
  from create2_salt [OF n(2)] have s': "s' = rjust 64 CHR ''0'' (hex n)" .
  from stop n(1,2) have test: "test a'" by (auto simp: passes_iff)
  have early: "\<forall>j\<le>n. t (Suc j) - t 0 < 10"
  proof (intro allI impI)
    fix j assume "j \<le> n"
    then have "j = n \<or> j < n" by auto
    with run n(1) show "t (Suc j) - t 0 < 10" by (auto simp: passes_iff)
  qed
  have before: "\<forall>j<n. \<exists>a'. create2 k D H j = Inr (rjust 64 CHR ''0'' (hex j), a') \<and> \<not> test a'"
  proof (intro allI impI)
    fix j assume "j < n"
    with run obtain s a where "create2 k D H j = Inr (s, a)" "\<not> test a"
      by (auto simp: passes_iff)
    with create2_salt [OF this(1)]
    show "\<exists>a'. create2 k D H j = Inr (rjust 64 CHR ''0'' (hex j), a') \<and> \<not> test a'" by auto
  qed
  from n s' test early before show ?R by blast
next
  assume ?R
  then obtain i a where i: "salt = ''0x'' @ rjust 64 CHR ''0'' (hex i)" "address = ''0x'' @ a"
    "create2 k D H i = Inr (rjust 64 CHR ''0'' (hex i), a)" "test a"
    "\<forall>j\<le>i. t (Suc j) - t 0 < 10"
    "\<forall>j<i. \<exists>a'. create2 k D H j = Inr (rjust 64 CHR ''0'' (hex j), a') \<and> \<not> test a'"
    by blast
  have "\<forall>j<i. passes t (create2 k D H) test j"
    using i(5,6) by (auto simp: passes_iff)
  moreover have "\<not> passes t (create2 k D H) test i"
    using i(3,4) by (auto simp: passes_iff)
  moreover have "leaves t (create2 k D H) i = Inr (salt, address)"
    using i(1,2,3,5) by (simp add: leaves_Inr_iff)
  ultimately show ?L by metis
qed

lemma stop_timeout:
  assumes exp: "10 \<le> t (Suc n) - t 0"
    and nohit: "\<forall>j<n. \<forall>s a. step j = Inr (s, a) \<longrightarrow> \<not> test a"
  shows "\<exists>m. (\<forall>j<m. passes t step test j) \<and> \<not> passes t step test m \<and>
           (\<exists>e. leaves t step m = Inl e) \<and>
           ((\<forall>j<n. \<exists>s a. step j = Inr (s, a)) \<longrightarrow> leaves t step m = Inl TimeOut)"
proof -
  define m where "m = (LEAST m. \<not> passes t step test m)"
  from exp have "\<not> passes t step test n" by (simp add: passes_iff)
  then have stop: "\<not> passes t step test m" and le: "m \<le> n"
    unfolding m_def by (rule LeastI, rule Least_le)
  have run: "\<forall>j<m. passes t step test j"
    unfolding m_def using not_less_Least by blast
  show ?thesis
  proof (cases "10 \<le> t (Suc m) - t 0")
    case True
    then have "leaves t step m = Inl TimeOut" by (rule leaves_expired)
    with run stop show ?thesis by blast
  next
    case False
    with exp have "m \<noteq> n" by auto
    with le have lt: "m < n" by simp
    from False stop have "\<not> (\<exists>s a. step m = Inr (s, a) \<and> \<not> test a)"
      by (simp add: passes_iff)
    with nohit lt have none: "\<not> (\<exists>s a. step m = Inr (s, a))" by blast
    then obtain e where e: "step m = Inl e" by (cases "step m") auto
    with False have "leaves t step m = Inl e" by (simp add: leaves_def)
    moreover from none lt have "\<not> (\<forall>j<n. \<exists>s a. step j = Inr (s, a))" by blast
    ultimately show ?thesis using run stop by blast
  qed
qed

lemma search_returns_iff:
  "GetSpecialAddressByCreate2 k t D H c p = Some (RetPair salt address) \<longleftrightarrow>
   (\<exists>i a. salt = ''0x'' @ rjust 64 CHR ''0'' (hex i) \<and> address = ''0x'' @ a \<and>
          create2 k D H i = Inr (rjust 64 CHR ''0'' (hex i), a) \<and> hit c p a \<and>
          (\<forall>j\<le>i. t (Suc j) - t 0 < 10) \<and>
          (\<forall>j<i. \<exists>a'. create2 k D H j = Inr (rjust 64 CHR ''0'' (hex j), a') \<and> \<not> hit c p a'))"
  unfolding GetSpecialAddressByCreate2_def except_None_pair loop_iff
  by (rule stop_pair_iff)

lemma search_two_returns_iff:
  "GetSpecialAddressByCreate2_two k t D H c1 c2 p1 p2 = Some (RetPair salt address) \<longleftrightarrow>
   (\<exists>i a. salt = ''0x'' @ rjust 64 CHR ''0'' (hex i) \<and> address = ''0x'' @ a \<and>
          create2 k D H i = Inr (rjust 64 CHR ''0'' (hex i), a) \<and> hit_two c1 c2 p1 p2 a \<and>
          (\<forall>j\<le>i. t (Suc j) - t 0 < 10) \<and>
          (\<forall>j<i. \<exists>a'. create2 k D H j = Inr (rjust 64 CHR ''0'' (hex j), a') \<and>
                      \<not> hit_two c1 c2 p1 p2 a'))"
  unfolding GetSpecialAddressByCreate2_two_def except_None_pair two_loop_iff
  by (rule stop_pair_iff)

lemma search_timeout:
  assumes "10 \<le> t (Suc n) - t 0"
    and "\<forall>j<n. \<forall>s a. create2 k D H j = Inr (s, a) \<longrightarrow> \<not> hit c p a"
  shows "GetSpecialAddressByCreate2 k t D H c p = Some RetNone \<and>
         (hexstr D \<and> hexstr H \<longrightarrow>
            GetSpecialAddressByCreate2_loop k t D H c p 0 = Some (Inl TimeOut))"
proof -
  from stop_timeout [OF assms] obtain m e where
    m: "\<forall>j<m. passes t (create2 k D H) (hit c p) j" "\<not> passes t (create2 k D H) (hit c p) m"
       "leaves t (create2 k D H) m = Inl e"
       "(\<forall>j<n. \<exists>s a. create2 k D H j = Inr (s, a)) \<longrightarrow> leaves t (create2 k D H) m = Inl TimeOut"
    by blast
  from m(1,2) have loop: "GetSpecialAddressByCreate2_loop k t D H c p 0 = Some (leaves t (create2 k D H) m)"
    unfolding loop_iff by blast
  with m(3) have "GetSpecialAddressByCreate2 k t D H c p = Some RetNone"
    by (simp add: GetSpecialAddressByCreate2_def)
  moreover have "GetSpecialAddressByCreate2_loop k t D H c p 0 = Some (Inl TimeOut)"
    if "hexstr D \<and> hexstr H"
  proof -
    from that create2_total [of D H k] have "\<forall>j<n. \<exists>s a. create2 k D H j = Inr (s, a)"
      by blast
    with m(4) loop show ?thesis by simp
  qed
  ultimately show ?thesis by blast
qed

lemma search_two_timeout:
  assumes "10 \<le> t (Suc n) - t 0"
    and "\<forall>j<n. \<forall>s a. create2 k D H j = Inr (s, a) \<longrightarrow> \<not> hit_two c1 c2 p1 p2 a"
  shows "GetSpecialAddressByCreate2_two k t D H c1 c2 p1 p2 = Some RetNone \<and>
         (hexstr D \<and> hexstr H \<longrightarrow>
            GetSpecialAddressByCreate2_two_loop k t D H c1 c2 p1 p2 0 = Some (Inl TimeOut))"
proof -
  from stop_timeout [OF assms] obtain m e where
    m: "\<forall>j<m. passes t (create2 k D H) (hit_two c1 c2 p1 p2) j"
       "\<not> passes t (create2 k D H) (hit_two c1 c2 p1 p2) m"
       "leaves t (create2 k D H) m = Inl e"
       "(\<forall>j<n. \<exists>s a. create2 k D H j = Inr (s, a)) \<longrightarrow> leaves t (create2 k D H) m = Inl TimeOut"
    by blast
  from m(1,2) have loop: "GetSpecialAddressByCreate2_two_loop k t D H c1 c2 p1 p2 0 =
      Some (leaves t (create2 k D H) m)"
    unfolding two_loop_iff by blast
  with m(3) have "GetSpecialAddressByCreate2_two k t D H c1 c2 p1 p2 = Some RetNone"
    by (simp add: GetSpecialAddressByCreate2_two_def)
  moreover have "GetSpecialAddressByCreate2_two_loop k t D H c1 c2 p1 p2 0 = Some (Inl TimeOut)"
    if "hexstr D \<and> hexstr H"
  proof -
    from that create2_total [of D H k] have "\<forall>j<n. \<exists>s a. create2 k D H j = Inr (s, a)"
      by blast
    with m(4) loop show ?thesis by simp
  qed
  ultimately show ?thesis by blast
qed


section \<open>The claims about the address search\<close>

lemma hexdigit_lowercase: "d < 16 \<Longrightarrow> hexdigit d \<in> set ''0123456789abcdef''"
  unfolding hexdigit_def by (rule nth_mem) simp

lemma hex02_lowercase: "set (hex02 b) \<subseteq> set ''0123456789abcdef''"
proof -
  have "unat b < 2 ^ LENGTH(8)" by (rule unsigned_less)
  then have "unat b < 256" by simp
  then have "unat b div 16 < 16" by simp
  moreover have "unat b mod 16 < 16" by simp
  ultimately have "hexdigit (unat b div 16) \<in> set ''0123456789abcdef''"
    and "hexdigit (unat b mod 16) \<in> set ''0123456789abcdef''"
    by (simp_all only: hexdigit_lowercase)
  then show ?thesis
    unfolding hex02_def by (simp only: list.set insert_subset empty_subsetI simp_thms)
qed

lemma hex02_concat_lowercase: "set (concat (map hex02 bs)) \<subseteq> set ''0123456789abcdef''"
proof
  fix c assume "c \<in> set (concat (map hex02 bs))"
  then obtain b where "c \<in> set (hex02 b)" by auto
  with hex02_lowercase [of b] show "c \<in> set ''0123456789abcdef''" by (rule subsetD)
qed

text \<open>
  Claim C1. A pair returned by the single-constraint search is the salt of some counter
  \<open>i\<close>, 64 hexadecimal digits that decode to the 32-byte big-endian encoding of \<open>i\<close>,
  together with the 40 lowercase hexadecimal digits of the last 20 bytes of the hash of
  \<open>0xff\<close>, the 20 deployer bytes, the 32 salt bytes and the 32 bytes of the init-code
  hash; and the address satisfies the constraint. The deployer is 40 digits and the hash
  64, the hash function returns 32 bytes, and the time budget ends within the 256-bit
  counter space.
\<close>
theorem search_result_is_create2_address:
  assumes ret: "GetSpecialAddressByCreate2 keccak256 time DeployAddress BytecodeHash content position
                  = Some (RetPair salt address)"
    and dig: "digest32 keccak256"
    and lenD: "length DeployAddress = 40" and lenH: "length BytecodeHash = 64"
    and exp: "10 \<le> time (Suc n) - time 0" and n: "n < 2 ^ 256"
  shows "\<exists>i deployer initCodeHash.
           i < 2 ^ 256 \<and> salt = ''0x'' @ rjust 64 CHR ''0'' (hex i) \<and> length salt = 66 \<and>
           unhexlify (drop 2 salt) = Inr (be_bytes 32 i) \<and>
           unhexlify DeployAddress = Inr deployer \<and> length deployer = 20 \<and>
           unhexlify BytecodeHash = Inr initCodeHash \<and> length initCodeHash = 32 \<and>
           address = ''0x'' @ concat (map hex02 (drop 12
                       (keccak256 (0xff # deployer @ be_bytes 32 i @ initCodeHash)))) \<and>
           length address = 42 \<and> set (drop 2 address) \<subseteq> set ''0123456789abcdef'' \<and>
           satisfies content position (drop 2 address)"
proof -
  from ret obtain i a where i: "salt = ''0x'' @ rjust 64 CHR ''0'' (hex i)" "address = ''0x'' @ a"
    "create2 keccak256 DeployAddress BytecodeHash i = Inr (rjust 64 CHR ''0'' (hex i), a)"
    "hit content position a" "\<forall>j\<le>i. time (Suc j) - time 0 < 10"
    unfolding search_returns_iff by blast
  have "i < n"
  proof (rule ccontr)
    assume "\<not> i < n"
    then have "n \<le> i" by simp
    with i(5) have "time (Suc n) - time 0 < 10" by blast
    with exp show False by simp
  qed
  with n have small: "i < 2 ^ 256" by simp
  define S where "S = rjust 64 CHR ''0'' (hex i)"
  have S: "unhexlify S = Inr (be_bytes 32 i)"
    unfolding S_def using small by (rule salt_bytes)
  from unhexlify_length [OF S] have lenS: "length S = 64" by (simp add: length_be_bytes)
  from create2_Inr [OF i(3)] obtain bs where
    bs: "to_bytes (''0xff'' @ DeployAddress @ S @ BytecodeHash) = Inr bs"
    and a: "a = concat (map hex02 (drop 12 (keccak256 bs)))"
    unfolding S_def by blast
  from bs obtain deployer initCodeHash where
    d: "unhexlify DeployAddress = Inr deployer" and h: "unhexlify BytecodeHash = Inr initCodeHash"
    and pre: "bs = 0xff # deployer @ be_bytes 32 i @ initCodeHash"
    unfolding S_def preimage_bytes [OF lenD lenH small]
    by (auto split: sum.splits)
  from unhexlify_length [OF d] lenD have ld: "length deployer = 20" by simp
  from unhexlify_length [OF h] lenH have lh: "length initCodeHash = 32" by simp
  from dig i(3) have la: "length a = 40" by (rule create2_length)
  have lower: "set a \<subseteq> set ''0123456789abcdef''"
    unfolding a by (rule hex02_concat_lowercase)
  from i(4) have sat: "satisfies content position a" by (rule hit_satisfies)
  have "salt = ''0x'' @ S" "drop 2 salt = S" "length salt = 66"
    "drop 2 address = a" "length address = 42"
    using i(1,2) lenS la by (simp_all add: S_def)
  with small S d ld h lh a pre lower sat i(2) show ?thesis
    unfolding S_def by (intro exI [of _ i] exI [of _ deployer] exI [of _ initCodeHash]) simp
qed


theorem search_result_is_create2_address_witness:
  "GetSpecialAddressByCreate2 salt_hash (ticking 1) (replicate 40 CHR ''0'')
       (replicate 64 CHR ''0'') ''3'' 39
     = Some (RetPair ''0x0000000000000000000000000000000000000000000000000000000000000003''
                     ''0x0303030303030303030303030303030303030303'') \<and>
   digest32 salt_hash \<and> length (replicate 40 CHR ''0'') = 40 \<and>
   length (replicate 64 CHR ''0'') = 64 \<and> 10 \<le> ticking 1 (Suc 9) - ticking 1 0 \<and>
   (9::nat) < 2 ^ 256 \<and>
   (\<exists>i deployer initCodeHash.
      unhexlify ''0000000000000000000000000000000000000000000000000000000000000003''
        = Inr (be_bytes 32 i) \<and>
      unhexlify (replicate 40 CHR ''0'') = Inr deployer \<and>
      unhexlify (replicate 64 CHR ''0'') = Inr initCodeHash \<and>
      ''0x0303030303030303030303030303030303030303'' =
        ''0x'' @ concat (map hex02 (drop 12
                  (salt_hash (0xff # deployer @ be_bytes 32 i @ initCodeHash)))) \<and>
      satisfies ''3'' 39 ''0303030303030303030303030303030303030303'')"
proof -
  have r: "GetSpecialAddressByCreate2 salt_hash (ticking 1) (replicate 40 CHR ''0'')
       (replicate 64 CHR ''0'') ''3'' 39
     = Some (RetPair ''0x0000000000000000000000000000000000000000000000000000000000000003''
                     ''0x0303030303030303030303030303030303030303'')"
    by code_simp
  have d: "digest32 salt_hash" by (simp add: digest32_def salt_hash_def)
  have l1: "length (replicate 40 CHR ''0'') = 40" by simp
  have l2: "length (replicate 64 CHR ''0'') = 64" by simp
  have e: "10 \<le> ticking 1 (Suc 9) - ticking 1 0" by (simp add: ticking_def)
  have n: "(9::nat) < 2 ^ 256" by simp
  from search_result_is_create2_address [OF r d l1 l2 e n]
  obtain i deployer initCodeHash where
    "unhexlify (drop 2 ''0x0000000000000000000000000000000000000000000000000000000000000003'')
       = Inr (be_bytes 32 i)"
    "unhexlify (replicate 40 CHR ''0'') = Inr deployer"
    "unhexlify (replicate 64 CHR ''0'') = Inr initCodeHash"
    "''0x0303030303030303030303030303030303030303'' =
        ''0x'' @ concat (map hex02 (drop 12
                  (salt_hash (0xff # deployer @ be_bytes 32 i @ initCodeHash))))"
    "satisfies ''3'' 39 (drop 2 ''0x0303030303030303030303030303030303030303'')"
    by blast
  then have "\<exists>i deployer initCodeHash.
      unhexlify ''0000000000000000000000000000000000000000000000000000000000000003''
        = Inr (be_bytes 32 i) \<and>
      unhexlify (replicate 40 CHR ''0'') = Inr deployer \<and>
      unhexlify (replicate 64 CHR ''0'') = Inr initCodeHash \<and>
      ''0x0303030303030303030303030303030303030303'' =
        ''0x'' @ concat (map hex02 (drop 12
                  (salt_hash (0xff # deployer @ be_bytes 32 i @ initCodeHash)))) \<and>
      satisfies ''3'' 39 ''0303030303030303030303030303030303030303''"
    by (intro exI [of _ i] exI [of _ deployer] exI [of _ initCodeHash]) simp
  with r d l1 l2 e n show ?thesis by (intro conjI)
qed

text \<open>
  Claim C3. The counter starts at \<open>0\<close> and goes up by one: a returned salt is the
  encoding of a counter \<open>i\<close> (and denotes \<open>i\<close> read as a hexadecimal number), the returned
  address is the one of \<open>i\<close> and satisfies the constraint, and every smaller counter was
  tried within the time budget and gave an address that does not satisfy it.
\<close>
theorem search_returns_first_match:
  assumes "GetSpecialAddressByCreate2 keccak256 time D H content position
             = Some (RetPair salt address)"
  shows "\<exists>i. salt = ''0x'' @ rjust 64 CHR ''0'' (hex i) \<and> hex_value (drop 2 salt) = i \<and>
             create2 keccak256 D H i = Inr (drop 2 salt, drop 2 address) \<and>
             satisfies content position (drop 2 address) \<and>
             (\<forall>j<i. time (Suc j) - time 0 < 10 \<and>
                    (\<exists>a. create2 keccak256 D H j = Inr (rjust 64 CHR ''0'' (hex j), a) \<and>
                         \<not> satisfies content position a))"
proof -
  from assms obtain i a where i: "salt = ''0x'' @ rjust 64 CHR ''0'' (hex i)" "address = ''0x'' @ a"
    "create2 keccak256 D H i = Inr (rjust 64 CHR ''0'' (hex i), a)"
    "hit content position a" "\<forall>j\<le>i. time (Suc j) - time 0 < 10"
    "\<forall>j<i. \<exists>a'. create2 keccak256 D H j = Inr (rjust 64 CHR ''0'' (hex j), a') \<and>
                \<not> hit content position a'"
    unfolding search_returns_iff by blast
  have ds: "drop 2 salt = rjust 64 CHR ''0'' (hex i)" and da: "drop 2 address = a"
    using i(1,2) by simp_all
  have hv: "hex_value (drop 2 salt) = i"
    unfolding ds by (rule hex_value_rjust)
  have sat: "satisfies content position a"
    using i(4) by (rule hit_satisfies)
  have before: "\<forall>j<i. time (Suc j) - time 0 < 10 \<and>
                    (\<exists>a. create2 keccak256 D H j = Inr (rjust 64 CHR ''0'' (hex j), a) \<and>
                         \<not> satisfies content position a)"
  proof (intro allI impI)
    fix j assume j: "j < i"
    with i(6) obtain a' where a': "create2 keccak256 D H j = Inr (rjust 64 CHR ''0'' (hex j), a')"
      "\<not> hit content position a'" by blast
    from a'(2) hit_complete [OF i(4)] have "\<not> satisfies content position a'" by blast
    moreover from j i(5) have "time (Suc j) - time 0 < 10" by simp
    ultimately show "time (Suc j) - time 0 < 10 \<and>
                    (\<exists>a. create2 keccak256 D H j = Inr (rjust 64 CHR ''0'' (hex j), a) \<and>
                         \<not> satisfies content position a)"
      using a'(1) by blast
  qed
  from i(1) hv i(3) sat before show ?thesis
    unfolding ds da by (intro exI [of _ i]) simp
qed

theorem search_returns_first_match_witness:
  "GetSpecialAddressByCreate2 salt_hash (ticking 1) (replicate 40 CHR ''0'')
       (replicate 64 CHR ''0'') ''2'' 39
     = Some (RetPair ''0x0000000000000000000000000000000000000000000000000000000000000002''
                     ''0x0202020202020202020202020202020202020202'') \<and>
   hex_value ''0000000000000000000000000000000000000000000000000000000000000002'' = 2 \<and>
   (\<exists>a. create2 salt_hash (replicate 40 CHR ''0'') (replicate 64 CHR ''0'') 1 =
          Inr (rjust 64 CHR ''0'' (hex 1), a) \<and> \<not> satisfies ''2'' 39 a)"
proof -
  have r: "GetSpecialAddressByCreate2 salt_hash (ticking 1) (replicate 40 CHR ''0'')
       (replicate 64 CHR ''0'') ''2'' 39
     = Some (RetPair ''0x0000000000000000000000000000000000000000000000000000000000000002''
                     ''0x0202020202020202020202020202020202020202'')"
    by code_simp
  from search_returns_first_match [OF r] obtain i where
    i: "hex_value (drop 2 ''0x0000000000000000000000000000000000000000000000000000000000000002'') = i"
    "\<forall>j<i. ticking 1 (Suc j) - ticking 1 0 < 10 \<and>
        (\<exists>a. create2 salt_hash (replicate 40 CHR ''0'') (replicate 64 CHR ''0'') j =
               Inr (rjust 64 CHR ''0'' (hex j), a) \<and> \<not> satisfies ''2'' 39 a)"
    by blast
  have v: "hex_value ''0000000000000000000000000000000000000000000000000000000000000002'' = 2"
    by code_simp
  with i(1) have "i = 2" by simp
  with i(2) have "\<exists>a. create2 salt_hash (replicate 40 CHR ''0'') (replicate 64 CHR ''0'') 1 =
          Inr (rjust 64 CHR ''0'' (hex 1), a) \<and> \<not> satisfies ''2'' 39 a"
    by simp
  with r v show ?thesis by (intro conjI)
qed


text \<open>
  Claim C4. When the elapsed time reaches the budget of 10 seconds at some iteration and
  no earlier salt gave an address that satisfies the constraint, the call ends and returns
  \<^verbatim>\<open>None\<close>, which is not a pair; with hexadecimal inputs the exception behind it is the
  time-out.
\<close>
theorem search_times_out:
  assumes exp: "10 \<le> time (Suc n) - time 0"
    and none: "\<forall>j<n. \<forall>s a. create2 keccak256 D H j = Inr (s, a) \<longrightarrow>
                 \<not> satisfies content position a"
  shows "GetSpecialAddressByCreate2 keccak256 time D H content position = Some RetNone \<and>
         GetSpecialAddressByCreate2 keccak256 time D H content position
           \<noteq> Some (RetPair salt address) \<and>
         (hexstr D \<and> hexstr H \<longrightarrow>
            GetSpecialAddressByCreate2_loop keccak256 time D H content position 0
              = Some (Inl TimeOut))"
proof -
  from none have "\<forall>j<n. \<forall>s a. create2 keccak256 D H j = Inr (s, a) \<longrightarrow> \<not> hit content position a"
    using hit_satisfies by blast
  from search_timeout [OF exp this] show ?thesis by simp
qed

theorem search_times_out_witness:
  "10 \<le> ticking 4 (Suc 2) - ticking 4 0 \<and>
   create2 (const_hash 0xab) (replicate 40 CHR ''0'') (replicate 64 CHR ''0'') 0 =
     Inr (''0000000000000000000000000000000000000000000000000000000000000000'',
          ''abababababababababababababababababababab'') \<and>
   \<not> satisfies ''cd'' 0 ''abababababababababababababababababababab'' \<and>
   hexstr (replicate 40 CHR ''0'') \<and> hexstr (replicate 64 CHR ''0'') \<and>
   GetSpecialAddressByCreate2 (const_hash 0xab) (ticking 4) (replicate 40 CHR ''0'')
     (replicate 64 CHR ''0'') ''cd'' 0 = Some RetNone \<and>
   GetSpecialAddressByCreate2_loop (const_hash 0xab) (ticking 4) (replicate 40 CHR ''0'')
     (replicate 64 CHR ''0'') ''cd'' 0 0 = Some (Inl TimeOut)"
proof -
  have e: "10 \<le> ticking 4 (Suc 2) - ticking 4 0" by (simp add: ticking_def)
  have c0: "create2 (const_hash 0xab) (replicate 40 CHR ''0'') (replicate 64 CHR ''0'') 0 =
     Inr (''0000000000000000000000000000000000000000000000000000000000000000'',
          ''abababababababababababababababababababab'')"
    by code_simp
  have c1: "create2 (const_hash 0xab) (replicate 40 CHR ''0'') (replicate 64 CHR ''0'') 1 =
     Inr (''0000000000000000000000000000000000000000000000000000000000000001'',
          ''abababababababababababababababababababab'')"
    by code_simp
  have ns: "\<not> satisfies ''cd'' 0 ''abababababababababababababababababababab''"
    by code_simp
  have hx: "hexstr (replicate 40 CHR ''0'')" "hexstr (replicate 64 CHR ''0'')"
    by code_simp+
  have none: "\<forall>j<2. \<forall>s a.
      create2 (const_hash 0xab) (replicate 40 CHR ''0'') (replicate 64 CHR ''0'') j = Inr (s, a)
        \<longrightarrow> \<not> satisfies ''cd'' 0 a"
  proof (intro allI impI)
    fix j :: nat and s a
    assume "j < 2"
      and c: "create2 (const_hash 0xab) (replicate 40 CHR ''0'') (replicate 64 CHR ''0'') j = Inr (s, a)"
    then have "j = 0 \<or> j = 1" by auto
    with c c0 c1 have "a = ''abababababababababababababababababababab''" by auto
    with ns show "\<not> satisfies ''cd'' 0 a" by simp
  qed
  from search_times_out [OF e none] hx
  have "GetSpecialAddressByCreate2 (const_hash 0xab) (ticking 4) (replicate 40 CHR ''0'')
     (replicate 64 CHR ''0'') ''cd'' 0 = Some RetNone"
   "GetSpecialAddressByCreate2_loop (const_hash 0xab) (ticking 4) (replicate 40 CHR ''0'')
     (replicate 64 CHR ''0'') ''cd'' 0 0 = Some (Inl TimeOut)"
    by blast+
  with e c0 ns hx show ?thesis by (intro conjI)
qed

text \<open>
  Claim C5, at the example of the docstring: content \<open>ab\<close> at position \<open>-2\<close>. The address
  of salt \<open>0\<close> ends in \<open>ab\<close>, so it satisfies the constraint, but the test of the loop
  fails on it (the slice \<^verbatim>\<open>address[-2:0]\<close> is empty) and the call returns \<^verbatim>\<open>None\<close>.
  The same holds for every negative position other than \<open>-4\<close> whose content reaches
  the end of the address.
\<close>
theorem negative_offset_docstring_example:
  "create2 (const_hash 0xab) (replicate 40 CHR ''0'') (replicate 64 CHR ''0'') 0 =
     Inr (''0000000000000000000000000000000000000000000000000000000000000000'',
          ''abababababababababababababababababababab'') \<and>
   satisfies ''ab'' (- 2) ''abababababababababababababababababababab'' \<and>
   slice_py ''abababababababababababababababababababab'' (- 2) (- 2 + int (length ''ab'')) = [] \<and>
   \<not> hit ''ab'' (- 2) ''abababababababababababababababababababab'' \<and>
   GetSpecialAddressByCreate2 (const_hash 0xab) (ticking 4) (replicate 40 CHR ''0'')
     (replicate 64 CHR ''0'') ''ab'' (- 2) = Some RetNone"
  by (intro conjI; code_simp)

text \<open>
  Claim C6. With the position \<open>-4\<close> the call returns a pair exactly when it reaches,
  within the time budget, a first counter whose address contains the content somewhere
  in its last four characters; the pair is the salt and the address of that counter.
\<close>
theorem tail_sentinel_anywhere_in_last_four:
  assumes "digest32 keccak256"
  shows "GetSpecialAddressByCreate2 keccak256 time D H content (- 4)
           = Some (RetPair salt address) \<longleftrightarrow>
         (\<exists>i a. salt = ''0x'' @ rjust 64 CHR ''0'' (hex i) \<and> address = ''0x'' @ a \<and>
            create2 keccak256 D H i = Inr (rjust 64 CHR ''0'' (hex i), a) \<and>
            length a = 40 \<and> sublist content (drop 36 a) \<and>
            (\<forall>j\<le>i. time (Suc j) - time 0 < 10) \<and>
            (\<forall>j<i. \<exists>a'. create2 keccak256 D H j = Inr (rjust 64 CHR ''0'' (hex j), a') \<and>
                        \<not> sublist content (drop 36 a')))"
proof -
  have tail: "hit content (- 4) a \<longleftrightarrow> sublist content (drop 36 a)"
    if "create2 keccak256 D H j = Inr (s, a)" for j s a
  proof -
    from assms that have "length a = 40" by (rule create2_length)
    then show ?thesis by (simp add: hit_tail)
  qed
  show ?thesis
    unfolding search_returns_iff
  proof (intro iffI; elim exE conjE)
    fix i a
    assume i: "salt = ''0x'' @ rjust 64 CHR ''0'' (hex i)" "address = ''0x'' @ a"
      "create2 keccak256 D H i = Inr (rjust 64 CHR ''0'' (hex i), a)"
      "hit content (- 4) a" "\<forall>j\<le>i. time (Suc j) - time 0 < 10"
      "\<forall>j<i. \<exists>a'. create2 keccak256 D H j = Inr (rjust 64 CHR ''0'' (hex j), a') \<and>
                  \<not> hit content (- 4) a'"
    from assms i(3) have "length a = 40" by (rule create2_length)
    moreover from i(4) tail [OF i(3)] have "sublist content (drop 36 a)" by simp
    moreover from i(6) tail
    have "\<forall>j<i. \<exists>a'. create2 keccak256 D H j = Inr (rjust 64 CHR ''0'' (hex j), a') \<and>
                  \<not> sublist content (drop 36 a')" by blast
    ultimately show "\<exists>i a. salt = ''0x'' @ rjust 64 CHR ''0'' (hex i) \<and> address = ''0x'' @ a \<and>
            create2 keccak256 D H i = Inr (rjust 64 CHR ''0'' (hex i), a) \<and>
            length a = 40 \<and> sublist content (drop 36 a) \<and>
            (\<forall>j\<le>i. time (Suc j) - time 0 < 10) \<and>
            (\<forall>j<i. \<exists>a'. create2 keccak256 D H j = Inr (rjust 64 CHR ''0'' (hex j), a') \<and>
                        \<not> sublist content (drop 36 a'))"
      using i(1,2,3,5) by blast
  next
    fix i a
    assume i: "salt = ''0x'' @ rjust 64 CHR ''0'' (hex i)" "address = ''0x'' @ a"
      "create2 keccak256 D H i = Inr (rjust 64 CHR ''0'' (hex i), a)"
      "sublist content (drop 36 a)" "\<forall>j\<le>i. time (Suc j) - time 0 < 10"
      "\<forall>j<i. \<exists>a'. create2 keccak256 D H j = Inr (rjust 64 CHR ''0'' (hex j), a') \<and>
                  \<not> sublist content (drop 36 a')"
    from i(4) tail [OF i(3)] have "hit content (- 4) a" by simp
    moreover from i(6) tail
    have "\<forall>j<i. \<exists>a'. create2 keccak256 D H j = Inr (rjust 64 CHR ''0'' (hex j), a') \<and>
                  \<not> hit content (- 4) a'" by blast
    ultimately show "\<exists>i a. salt = ''0x'' @ rjust 64 CHR ''0'' (hex i) \<and> address = ''0x'' @ a \<and>
            create2 keccak256 D H i = Inr (rjust 64 CHR ''0'' (hex i), a) \<and>
            hit content (- 4) a \<and>
            (\<forall>j\<le>i. time (Suc j) - time 0 < 10) \<and>
            (\<forall>j<i. \<exists>a'. create2 keccak256 D H j = Inr (rjust 64 CHR ''0'' (hex j), a') \<and>
                        \<not> hit content (- 4) a')"
      using i(1,2,3,5) by blast
  qed
qed

theorem tail_sentinel_anywhere_in_last_four_witness:
  "digest32 salt_hash \<and>
   GetSpecialAddressByCreate2 salt_hash (ticking 1) (replicate 40 CHR ''0'')
       (replicate 64 CHR ''0'') ''20'' (- 4)
     = Some (RetPair ''0x0000000000000000000000000000000000000000000000000000000000000002''
                     ''0x0202020202020202020202020202020202020202'') \<and>
   sublist ''20'' (drop 36 ''0202020202020202020202020202020202020202'') \<and>
   (\<exists>a'. create2 salt_hash (replicate 40 CHR ''0'') (replicate 64 CHR ''0'') 1 =
            Inr (rjust 64 CHR ''0'' (hex 1), a') \<and> \<not> sublist ''20'' (drop 36 a'))"
proof -
  have d: "digest32 salt_hash" by (simp add: digest32_def salt_hash_def)
  have r: "GetSpecialAddressByCreate2 salt_hash (ticking 1) (replicate 40 CHR ''0'')
       (replicate 64 CHR ''0'') ''20'' (- 4)
     = Some (RetPair ''0x0000000000000000000000000000000000000000000000000000000000000002''
                     ''0x0202020202020202020202020202020202020202'')"
    by code_simp
  from r [unfolded tail_sentinel_anywhere_in_last_four [OF d]] obtain i a where
    i: "''0x0000000000000000000000000000000000000000000000000000000000000002''
          = ''0x'' @ rjust 64 CHR ''0'' (hex i)"
       "''0x0202020202020202020202020202020202020202'' = ''0x'' @ a"
       "sublist ''20'' (drop 36 a)"
       "\<forall>j<i. \<exists>a'. create2 salt_hash (replicate 40 CHR ''0'') (replicate 64 CHR ''0'') j =
            Inr (rjust 64 CHR ''0'' (hex j), a') \<and> \<not> sublist ''20'' (drop 36 a')"
    by blast
  from i(2) have a: "a = ''0202020202020202020202020202020202020202''" by simp
  from i(1) have "hex_value (rjust 64 CHR ''0'' (hex i)) =
      hex_value ''0000000000000000000000000000000000000000000000000000000000000002''"
    by simp
  moreover have "hex_value ''0000000000000000000000000000000000000000000000000000000000000002'' = 2"
    by code_simp
  ultimately have "i = 2" by (simp only: hex_value_rjust)
  with i(4) have "\<exists>a'. create2 salt_hash (replicate 40 CHR ''0'') (replicate 64 CHR ''0'') 1 =
            Inr (rjust 64 CHR ''0'' (hex 1), a') \<and> \<not> sublist ''20'' (drop 36 a')"
    by simp
  with d r i(3) a show ?thesis by (intro conjI) simp_all
qed


lemma occupies_forward:
  "0 \<le> p \<Longrightarrow> occupies c p a \<longleftrightarrow> take (length c) (drop (nat p) a) = c"
  by (auto simp: occupies_def)

text \<open>
  Claim C7. With forward positions, a pair returned by the two-constraint search is the
  salt and the address of one counter, and that address holds the first content at the
  first position and the second content at the second. Two contents that differ in some
  character, asked for at the same position, are never found: no pair is returned, and
  once the elapsed time reaches the budget the call returns \<^verbatim>\<open>None\<close>, by the time-out
  when the inputs are hexadecimal.
\<close>
theorem two_constraints_both_hold:
  "(0 \<le> position1 \<and> 0 \<le> position2 \<and>
    GetSpecialAddressByCreate2_two keccak256 time D H content1 content2 position1 position2
      = Some (RetPair salt address) \<longrightarrow>
      (\<exists>i a. salt = ''0x'' @ rjust 64 CHR ''0'' (hex i) \<and> address = ''0x'' @ a \<and>
             create2 keccak256 D H i = Inr (rjust 64 CHR ''0'' (hex i), a) \<and>
             occupies content1 position1 a \<and> occupies content2 position2 a)) \<and>
   (position1 = position2 \<and> q < length content1 \<and> q < length content2 \<and>
    content1 ! q \<noteq> content2 ! q \<longrightarrow>
      GetSpecialAddressByCreate2_two keccak256 time D H content1 content2 position1 position2
        \<noteq> Some (RetPair salt address) \<and>
      (10 \<le> time (Suc n) - time 0 \<longrightarrow>
         GetSpecialAddressByCreate2_two keccak256 time D H content1 content2 position1 position2
           = Some RetNone \<and>
         (hexstr D \<and> hexstr H \<longrightarrow>
            GetSpecialAddressByCreate2_two_loop keccak256 time D H content1 content2
              position1 position2 0 = Some (Inl TimeOut))))"
proof (intro conjI impI; (elim conjE)?)
  assume p: "0 \<le> position1" "0 \<le> position2"
    and ret: "GetSpecialAddressByCreate2_two keccak256 time D H content1 content2 position1 position2
                = Some (RetPair salt address)"
  from ret obtain i a where i: "salt = ''0x'' @ rjust 64 CHR ''0'' (hex i)" "address = ''0x'' @ a"
    "create2 keccak256 D H i = Inr (rjust 64 CHR ''0'' (hex i), a)"
    "hit_two content1 content2 position1 position2 a"
    unfolding search_two_returns_iff by blast
  from i(4) p have "occupies content1 position1 a" "occupies content2 position2 a"
    by (simp_all add: hit_two_forward occupies_forward)
  with i(1,2,3) show "\<exists>i a. salt = ''0x'' @ rjust 64 CHR ''0'' (hex i) \<and> address = ''0x'' @ a \<and>
             create2 keccak256 D H i = Inr (rjust 64 CHR ''0'' (hex i), a) \<and>
             occupies content1 position1 a \<and> occupies content2 position2 a"
    by blast
next
  assume same: "position1 = position2"
    and q: "q < length content1" "q < length content2" "content1 ! q \<noteq> content2 ! q"
  have never: "\<not> hit_two content1 content2 position1 position2 a" for a
    unfolding same using q by (rule hit_two_exclusive)
  then show "GetSpecialAddressByCreate2_two keccak256 time D H content1 content2 position1 position2
        \<noteq> Some (RetPair salt address)"
    unfolding search_two_returns_iff by blast
next
  assume same: "position1 = position2"
    and q: "q < length content1" "q < length content2" "content1 ! q \<noteq> content2 ! q"
    and exp: "10 \<le> time (Suc n) - time 0"
  have never: "\<not> hit_two content1 content2 position1 position2 a" for a
    unfolding same using q by (rule hit_two_exclusive)
  then have "\<forall>j<n. \<forall>s a. create2 keccak256 D H j = Inr (s, a) \<longrightarrow>
               \<not> hit_two content1 content2 position1 position2 a" by blast
  from search_two_timeout [OF exp this]
  show "GetSpecialAddressByCreate2_two keccak256 time D H content1 content2 position1 position2
           = Some RetNone" by blast
next
  assume same: "position1 = position2"
    and q: "q < length content1" "q < length content2" "content1 ! q \<noteq> content2 ! q"
    and exp: "10 \<le> time (Suc n) - time 0"
    and hx: "hexstr D" "hexstr H"
  have never: "\<not> hit_two content1 content2 position1 position2 a" for a
    unfolding same using q by (rule hit_two_exclusive)
  then have "\<forall>j<n. \<forall>s a. create2 keccak256 D H j = Inr (s, a) \<longrightarrow>
               \<not> hit_two content1 content2 position1 position2 a" by blast
  from search_two_timeout [OF exp this] hx
  show "GetSpecialAddressByCreate2_two_loop keccak256 time D H content1 content2
              position1 position2 0 = Some (Inl TimeOut)" by blast
qed

theorem two_constraints_both_hold_witness:
  "GetSpecialAddressByCreate2_two salt_hash (ticking 1) (replicate 40 CHR ''0'')
       (replicate 64 CHR ''0'') ''02'' ''2'' 0 39
     = Some (RetPair ''0x0000000000000000000000000000000000000000000000000000000000000002''
                     ''0x0202020202020202020202020202020202020202'') \<and>
   occupies ''02'' 0 ''0202020202020202020202020202020202020202'' \<and>
   occupies ''2'' 39 ''0202020202020202020202020202020202020202'' \<and>
   ''a'' ! 0 \<noteq> ''b'' ! 0 \<and> 10 \<le> ticking 4 (Suc 2) - ticking 4 0 \<and>
   hexstr (replicate 40 CHR ''0'') \<and> hexstr (replicate 64 CHR ''0'') \<and>
   GetSpecialAddressByCreate2_two (const_hash 0xab) (ticking 4) (replicate 40 CHR ''0'')
       (replicate 64 CHR ''0'') ''a'' ''b'' 0 0 = Some RetNone \<and>
   GetSpecialAddressByCreate2_two_loop (const_hash 0xab) (ticking 4) (replicate 40 CHR ''0'')
       (replicate 64 CHR ''0'') ''a'' ''b'' 0 0 0 = Some (Inl TimeOut)"
proof -
  have r: "GetSpecialAddressByCreate2_two salt_hash (ticking 1) (replicate 40 CHR ''0'')
       (replicate 64 CHR ''0'') ''02'' ''2'' 0 39
     = Some (RetPair ''0x0000000000000000000000000000000000000000000000000000000000000002''
                     ''0x0202020202020202020202020202020202020202'')"
    by code_simp
  have p: "(0::int) \<le> 0" "(0::int) \<le> 39" by simp_all
  from two_constraints_both_hold [of 0 39 salt_hash "ticking 1" "replicate 40 CHR ''0''"
      "replicate 64 CHR ''0''" "''02''" "''2''"
      "''0x0000000000000000000000000000000000000000000000000000000000000002''"
      "''0x0202020202020202020202020202020202020202''"] p r
  obtain i a where a: "''0x0202020202020202020202020202020202020202'' = ''0x'' @ a"
    "occupies ''02'' 0 a" "occupies ''2'' 39 a"
    by blast
  from a(1) have "a = ''0202020202020202020202020202020202020202''" by simp
  with a(2,3) have o: "occupies ''02'' 0 ''0202020202020202020202020202020202020202''"
    "occupies ''2'' 39 ''0202020202020202020202020202020202020202''" by simp_all
  have q: "(0::nat) < length ''a''" "(0::nat) < length ''b''" "''a'' ! 0 \<noteq> ''b'' ! 0"
    by simp_all
  have e: "10 \<le> ticking 4 (Suc 2) - ticking 4 0" by (simp add: ticking_def)
  have hx: "hexstr (replicate 40 CHR ''0'')" "hexstr (replicate 64 CHR ''0'')"
    by code_simp+
  from two_constraints_both_hold [of 0 0 "const_hash 0xab" "ticking 4" "replicate 40 CHR ''0''"
      "replicate 64 CHR ''0''" "''a''" "''b''" "[]" "[]" 0 2] q e hx
  have t: "GetSpecialAddressByCreate2_two (const_hash 0xab) (ticking 4) (replicate 40 CHR ''0'')
       (replicate 64 CHR ''0'') ''a'' ''b'' 0 0 = Some RetNone"
    "GetSpecialAddressByCreate2_two_loop (const_hash 0xab) (ticking 4) (replicate 40 CHR ''0'')
       (replicate 64 CHR ''0'') ''a'' ''b'' 0 0 0 = Some (Inl TimeOut)"
    by blast+
  from r o q(3) e hx t show ?thesis by (intro conjI)
qed

lemma overlong_never_hits:
  assumes "digest32 k" and "0 \<le> p" and "40 < p + int (length c)" and "c \<noteq> []"
    and "create2 k D H j = Inr (s, a)"
  shows "\<not> hit c p a"
proof -
  from assms(1,5) have "length a = 40" by (rule create2_length)
  with assms(3) have "int (length a) < p + int (length c)" by simp
  with assms(2) show ?thesis using assms(4) by (rule hit_too_long)
qed

lemma hit_two_first: "0 \<le> p1 \<Longrightarrow> hit_two c1 c2 p1 p2 a \<Longrightarrow> hit c1 p1 a"
  unfolding hit_two_def str_in_slice by (simp add: hit_slice)

lemma hit_two_second: "0 \<le> p2 \<Longrightarrow> hit_two c1 c2 p1 p2 a \<Longrightarrow> hit c2 p2 a"
  unfolding hit_two_def str_in_slice by (simp add: hit_slice)

lemma overlong_times_out:
  assumes dig: "digest32 k" and p: "0 \<le> p" and long: "40 < p + int (length c)"
    and ne: "c \<noteq> []" and exp: "10 \<le> t (Suc n) - t 0"
  shows "GetSpecialAddressByCreate2 k t D H c p = Some RetNone \<and>
         GetSpecialAddressByCreate2_two k t D H c c2 p p2 = Some RetNone \<and>
         GetSpecialAddressByCreate2_two k t D H c1 c p1 p = Some RetNone \<and>
         (hexstr D \<and> hexstr H \<longrightarrow>
            GetSpecialAddressByCreate2_loop k t D H c p 0 = Some (Inl TimeOut) \<and>
            GetSpecialAddressByCreate2_two_loop k t D H c c2 p p2 0 = Some (Inl TimeOut) \<and>
            GetSpecialAddressByCreate2_two_loop k t D H c1 c p1 p 0 = Some (Inl TimeOut))"
proof -
  have one: "\<forall>j<n. \<forall>s a. create2 k D H j = Inr (s, a) \<longrightarrow> \<not> hit c p a"
    using overlong_never_hits [OF dig p long ne] by blast
  then have first: "\<forall>j<n. \<forall>s a. create2 k D H j = Inr (s, a) \<longrightarrow> \<not> hit_two c c2 p p2 a"
    using hit_two_first [OF p] by blast
  from one have second: "\<forall>j<n. \<forall>s a. create2 k D H j = Inr (s, a) \<longrightarrow> \<not> hit_two c1 c p1 p a"
    using hit_two_second [OF p] by blast
  from search_timeout [OF exp one] search_two_timeout [OF exp first]
    search_two_timeout [OF exp second]
  show ?thesis by blast
qed

text \<open>
  Claim C9, as the code has it. A constraint with a forward position that runs past the
  40 characters of the address is not rejected. The empty content is found at once; a
  content of one character or more is never found, so that once the elapsed time reaches
  the budget both searches return \<^verbatim>\<open>None\<close>, by the time-out exception when the inputs
  are hexadecimal.
\<close>
theorem overlong_constraint_times_out:
  assumes "digest32 keccak256" and "0 \<le> position"
    and "40 < position + int (length content)" and "content \<noteq> []"
    and "10 \<le> time (Suc n) - time 0"
  shows "GetSpecialAddressByCreate2 keccak256 time D H content position = Some RetNone \<and>
         GetSpecialAddressByCreate2_two keccak256 time D H content content2 position position2
           = Some RetNone \<and>
         GetSpecialAddressByCreate2_two keccak256 time D H content1 content position1 position
           = Some RetNone \<and>
         (hexstr D \<and> hexstr H \<longrightarrow>
            GetSpecialAddressByCreate2_loop keccak256 time D H content position 0
              = Some (Inl TimeOut) \<and>
            GetSpecialAddressByCreate2_two_loop keccak256 time D H content content2
              position position2 0 = Some (Inl TimeOut) \<and>
            GetSpecialAddressByCreate2_two_loop keccak256 time D H content1 content
              position1 position 0 = Some (Inl TimeOut))"
  using assms by (rule overlong_times_out)

theorem overlong_constraint_times_out_witness:
  "digest32 (const_hash 0xab) \<and> (0::int) \<le> 39 \<and> 40 < 39 + int (length ''ab'') \<and>
   ''ab'' \<noteq> [] \<and> 10 \<le> ticking 4 (Suc 2) - ticking 4 0 \<and>
   hexstr (replicate 40 CHR ''0'') \<and> hexstr (replicate 64 CHR ''0'') \<and>
   GetSpecialAddressByCreate2 (const_hash 0xab) (ticking 4) (replicate 40 CHR ''0'')
     (replicate 64 CHR ''0'') ''ab'' 39 = Some RetNone \<and>
   GetSpecialAddressByCreate2_loop (const_hash 0xab) (ticking 4) (replicate 40 CHR ''0'')
     (replicate 64 CHR ''0'') ''ab'' 39 0 = Some (Inl TimeOut) \<and>
   GetSpecialAddressByCreate2_two_loop (const_hash 0xab) (ticking 4) (replicate 40 CHR ''0'')
     (replicate 64 CHR ''0'') ''ab'' ''a'' 39 0 0 = Some (Inl TimeOut)"
proof -
  have d: "digest32 (const_hash 0xab)" by (simp add: digest32_def const_hash_def)
  have p: "(0::int) \<le> 39" by simp
  have l: "40 < 39 + int (length ''ab'')" by simp
  have ne: "''ab'' \<noteq> []" by simp
  have e: "10 \<le> ticking 4 (Suc 2) - ticking 4 0" by (simp add: ticking_def)
  have hx: "hexstr (replicate 40 CHR ''0'')" "hexstr (replicate 64 CHR ''0'')"
    by code_simp+
  from overlong_constraint_times_out [OF d p l ne e, of "replicate 40 CHR ''0''"
      "replicate 64 CHR ''0''" "''a''" 0 "''a''" 0] hx
  have t: "GetSpecialAddressByCreate2 (const_hash 0xab) (ticking 4) (replicate 40 CHR ''0'')
     (replicate 64 CHR ''0'') ''ab'' 39 = Some RetNone"
    "GetSpecialAddressByCreate2_loop (const_hash 0xab) (ticking 4) (replicate 40 CHR ''0'')
     (replicate 64 CHR ''0'') ''ab'' 39 0 = Some (Inl TimeOut)"
    "GetSpecialAddressByCreate2_two_loop (const_hash 0xab) (ticking 4) (replicate 40 CHR ''0'')
     (replicate 64 CHR ''0'') ''ab'' ''a'' 39 0 0 = Some (Inl TimeOut)"
    by blast+
  from d p l ne e hx t show ?thesis by (intro conjI)
qed

text \<open>
  The claim as stated fails at content \<open>ab\<close>, position \<open>39\<close>: the exception is the
  time-out. At the empty content and position \<open>41\<close> the call returns a pair.
\<close>
theorem overlong_constraint_counterexample:
  "(0::int) \<le> 39 \<and> 40 < 39 + int (length ''ab'') \<and>
   GetSpecialAddressByCreate2_loop (const_hash 0xab) (ticking 4) (replicate 40 CHR ''0'')
     (replicate 64 CHR ''0'') ''ab'' 39 0 = Some (Inl TimeOut) \<and>
   GetSpecialAddressByCreate2_two_loop (const_hash 0xab) (ticking 4) (replicate 40 CHR ''0'')
     (replicate 64 CHR ''0'') ''ab'' ''a'' 39 0 0 = Some (Inl TimeOut) \<and>
   (0::int) \<le> 41 \<and> 40 < 41 + int (length '''') \<and>
   GetSpecialAddressByCreate2 (const_hash 0xab) (ticking 4) (replicate 40 CHR ''0'')
     (replicate 64 CHR ''0'') '''' 41 =
     Some (RetPair ''0x0000000000000000000000000000000000000000000000000000000000000000''
                   ''0xabababababababababababababababababababab'')"
  by (intro conjI; code_simp)


end
